theory Spec2Isabelle
  imports
    Complex_Main
    "HOL-Library.Word"
    "HOL-Library.List_Lexorder"
    "HOL-Library.Char_ord"
    "HOL-Library.Product_Lexorder"
    "HOL-Library.Signed_Division"
    "HOL-Library.Sublist"
begin

unbundle bit_operations_syntax

chapter \<open>ktsdb: key codec, series registry, tag index, filter parser, range reads, aggregation\<close>

section \<open>Machine types\<close>

text \<open>
  Go's \<open>byte\<close>, \<open>uint64\<close> and \<open>int64\<close> are words; an \<open>int64\<close> is the two's-complement
  reading (\<open>sint\<close>, \<open><s\<close>, \<open>\<le>s\<close>) of a 64-bit word, so the conversion \<open>uint64(x)\<close> of an
  \<open>int64\<close> is the identity on the representation. A byte slice is a \<open>byte list\<close> whose
  length is both \<open>len\<close> and \<open>cap\<close> (every slice of the package comes from
  \<open>make([]byte, n)\<close>). Byte slices are compared lexicographically (\<open>bytes.Compare\<close>), which
  is the order of \<open>HOL-Library.List_Lexorder\<close> over the unsigned order of bytes.
\<close>

type_synonym byte = "8 word"
type_synonym uint64 = "64 word"
type_synonym int64 = "64 word"
type_synonym SeriesID = "64 word"

definition make_bytes :: "nat \<Rightarrow> byte list" where
  "make_bytes n = replicate n 0"

section \<open>encoding/binary, big endian\<close>

text \<open>
  \<open>binary.BigEndian.PutUint64(b, v)\<close> stores \<open>byte(v >> 56)\<close>, ..., \<open>byte(v)\<close> in
  \<open>b[0..7]\<close>; \<open>PutUint64\<close> is the eight bytes written.
  \<open>binary.BigEndian.Uint64(b)\<close> reads \<open>b[0..7]\<close> and panics on a shorter slice
  (\<open>None\<close>).
\<close>

definition PutUint64 :: "uint64 \<Rightarrow> byte list" where
  "PutUint64 v = [ucast (drop_bit 56 v), ucast (drop_bit 48 v), ucast (drop_bit 40 v),
     ucast (drop_bit 32 v), ucast (drop_bit 24 v), ucast (drop_bit 16 v),
     ucast (drop_bit 8 v), ucast v]"

fun Uint64 :: "byte list \<Rightarrow> uint64 option" where
  "Uint64 (b0 # b1 # b2 # b3 # b4 # b5 # b6 # b7 # rest) =
     Some (ucast b7 OR push_bit 8 (ucast b6) OR push_bit 16 (ucast b5)
       OR push_bit 24 (ucast b4) OR push_bit 32 (ucast b3) OR push_bit 40 (ucast b2)
       OR push_bit 48 (ucast b1) OR push_bit 56 (ucast b0))"
| "Uint64 _ = None"

section \<open>Key codec (encoding.go)\<close>

definition PrefixData :: byte where "PrefixData = 0x64"
definition PrefixSeries :: byte where "PrefixSeries = 0x73"
definition PrefixIndex :: byte where "PrefixIndex = 0x69"

definition SeriesIDSize :: nat where "SeriesIDSize = 8"
definition TimestampSize :: nat where "TimestampSize = 8"
definition DataKeySize :: nat where "DataKeySize = 1 + SeriesIDSize + TimestampSize"
definition SeriesKeySize :: nat where "SeriesKeySize = 1 + SeriesIDSize"

text \<open>
  \<open>EncodeDataKey(buf, seriesID, timestamp)\<close> writes \<open>buf[0..16]\<close> and returns 17; it
  panics (\<open>None\<close>) when the buffer is shorter. The result is the buffer after the call and
  the count returned.
\<close>

definition EncodeDataKey :: "byte list \<Rightarrow> uint64 \<Rightarrow> int64 \<Rightarrow> (byte list \<times> nat) option" where
  "EncodeDataKey buf seriesID timestamp =
     (if length buf < DataKeySize then None
      else Some (PrefixData # PutUint64 seriesID @ PutUint64 (NOT timestamp) @ drop DataKeySize buf,
                 DataKeySize))"

text \<open>\<open>DecodeDataKey(buf)\<close> reads \<open>buf[1:9]\<close> and \<open>buf[9:17]\<close>; panics on a short buffer.\<close>

definition DecodeDataKey :: "byte list \<Rightarrow> (uint64 \<times> int64) option" where
  "DecodeDataKey buf =
     (if length buf < DataKeySize then None
      else case (Uint64 (take 8 (drop 1 buf)), Uint64 (take 8 (drop 9 buf))) of
             (Some seriesID, Some negatedTS) \<Rightarrow> Some (seriesID, NOT negatedTS)
           | _ \<Rightarrow> None)"

definition EncodeSeriesKey :: "byte list \<Rightarrow> uint64 \<Rightarrow> (byte list \<times> nat) option" where
  "EncodeSeriesKey buf seriesID =
     (if length buf < SeriesKeySize then None
      else Some (PrefixSeries # PutUint64 seriesID @ drop SeriesKeySize buf, SeriesKeySize))"




text \<open>The value of a byte string read as a big-endian numeral.\<close>

fun be_val :: "byte list \<Rightarrow> nat" where
  "be_val [] = 0"
| "be_val (b # bs) = unat b * 256 ^ length bs + be_val bs"



section \<open>Data points and aggregation (read.go, aggregate.go)\<close>

text \<open>
  A \<open>DataPoint\<close> carries an \<open>int64\<close> timestamp and a \<open>float64\<close> value. The value type
  is a parameter: the storage path keeps whatever \<open>math.Float64frombits\<close> yields, and the
  aggregation computes over \<open>real\<close>. Sums, comparisons and quotients of the reals agree
  with \<open>float64\<close> wherever the float operations are exact, which is the case for the small
  integers of the aggregation scenario below; rounding, infinities and NaN are outside
  this model.
\<close>

record 'v DataPoint =
  Timestamp :: int64
  Value :: 'v

text \<open>\<open>AggregateFunc\<close> is an \<open>int\<close> with the constants \<open>iota = 0, 1, ...\<close>.\<close>

type_synonym AggregateFunc = int

definition AggAvg :: AggregateFunc where "AggAvg = 0"
definition AggSum :: AggregateFunc where "AggSum = 1"
definition AggMin :: AggregateFunc where "AggMin = 2"
definition AggMax :: AggregateFunc where "AggMax = 3"
definition AggCount :: AggregateFunc where "AggCount = 4"

text \<open>
  The fields \<open>Timestamp\<close> and \<open>Value\<close> of a \<open>Bucket\<close> are named \<open>BucketTimestamp\<close> and
  \<open>BucketValue\<close> here, to keep them apart from those of \<open>DataPoint\<close>.
\<close>

record Bucket =
  BucketTimestamp :: int64
  BucketValue :: real
  Count :: int

record AggregateOptions =
  Func :: AggregateFunc
  BucketSize :: int64

text \<open>
  The fields \<open>sum\<close>, \<open>min\<close>, \<open>max\<close>, \<open>count\<close> of the accumulator carry the prefix
  \<open>acc_\<close>. \<open>new_accumulator\<close> is the zero value \<open>&accumulator{}\<close>.
\<close>

record accumulator =
  acc_sum :: real
  acc_min :: real
  acc_max :: real
  acc_count :: int

definition new_accumulator :: accumulator where
  "new_accumulator = \<lparr>acc_sum = 0, acc_min = 0, acc_max = 0, acc_count = 0\<rparr>"

definition add :: "accumulator \<Rightarrow> real \<Rightarrow> accumulator" where
  "add a v =
     (let a1 = (if acc_count a = 0 then a\<lparr>acc_min := v, acc_max := v\<rparr>
                else (let a2 = (if v < acc_min a then a\<lparr>acc_min := v\<rparr> else a)
                      in if v > acc_max a2 then a2\<lparr>acc_max := v\<rparr> else a2))
      in a1\<lparr>acc_sum := acc_sum a1 + v, acc_count := acc_count a1 + 1\<rparr>)"

definition compute :: "accumulator \<Rightarrow> AggregateFunc \<Rightarrow> real" where
  "compute a fn =
     (if fn = AggAvg then (if acc_count a = 0 then 0 else acc_sum a / real_of_int (acc_count a))
      else if fn = AggSum then acc_sum a
      else if fn = AggMin then acc_min a
      else if fn = AggMax then acc_max a
      else if fn = AggCount then real_of_int (acc_count a)
      else 0)"

text \<open>
  Go's \<open>/\<close> on \<open>int64\<close> truncates towards zero (\<open>sdiv\<close> on the signed readings); the
  quotient wraps in the one overflowing case \<open>MinInt64 / -1\<close>. \<open>bucket_key\<close> is the
  expression \<open>(p.Timestamp / opts.BucketSize) * opts.BucketSize\<close> of the loop.
\<close>

definition int64_div :: "int64 \<Rightarrow> int64 \<Rightarrow> int64" where
  "int64_div a b = word_of_int (sint a sdiv sint b)"

definition bucket_key :: "int64 \<Rightarrow> int64 \<Rightarrow> int64" where
  "bucket_key ts bucketSize = int64_div ts bucketSize * bucketSize"

text \<open>
  The map \<open>buckets\<close> from key to accumulator is an association list with distinct keys,
  in order of first insertion. \<open>bucket_add\<close> is one iteration of the loop: look the key
  up, insert a fresh accumulator when it is absent, and \<open>add\<close> the value to the
  accumulator in place.
\<close>

definition bucket_add :: "(int64 \<times> accumulator) list \<Rightarrow> int64 \<Rightarrow> real \<Rightarrow> (int64 \<times> accumulator) list" where
  "bucket_add buckets key v =
     (case map_of buckets key of
        None \<Rightarrow> buckets @ [(key, add new_accumulator v)]
      | Some acc \<Rightarrow> map (\<lambda>(k, a). if k = key then (k, add a v) else (k, a)) buckets)"

fun fill_buckets :: "int64 \<Rightarrow> (int64 \<times> accumulator) list \<Rightarrow> real DataPoint list \<Rightarrow> (int64 \<times> accumulator) list" where
  "fill_buckets bucketSize buckets [] = buckets"
| "fill_buckets bucketSize buckets (p # ps) =
     fill_buckets bucketSize
       (bucket_add buckets (bucket_key (Timestamp p) bucketSize) (Value p)) ps"

text \<open>
  \<open>sortBuckets\<close> sorts by the signed timestamp. The timestamps of the buckets are the
  distinct keys of the map, so the sorted list does not depend on the order in which Go
  iterates the map, nor on the stability of \<open>sort.Slice\<close>.
\<close>

definition sortBuckets :: "Bucket list \<Rightarrow> Bucket list" where
  "sortBuckets buckets = sort_key (\<lambda>b. sint (BucketTimestamp b)) buckets"

text \<open>\<open>Aggregate\<close> returns \<open>nil\<close> (the empty list) on no points or a bucket size \<open>\<le> 0\<close>.\<close>

definition Aggregate :: "real DataPoint list \<Rightarrow> AggregateOptions \<Rightarrow> Bucket list" where
  "Aggregate points opts =
     (if length points = 0 \<or> BucketSize opts \<le>s 0 then []
      else sortBuckets
             (map (\<lambda>(ts, acc). \<lparr>BucketTimestamp = ts, BucketValue = compute acc (Func opts), Count = acc_count acc\<rparr>)
                (fill_buckets (BucketSize opts) [] points)))"



text \<open>The count held for a key of the bucket map (0 when the key is absent).\<close>

definition count_at :: "(int64 \<times> accumulator) list \<Rightarrow> int64 \<Rightarrow> int" where
  "count_at buckets k = (case map_of buckets k of None \<Rightarrow> 0 | Some a \<Rightarrow> acc_count a)"


section \<open>The ordered key-value store\<close>

text \<open>
  The store (Badger) is an external collaborator: an ordered byte-key store. Its content
  is the list of its items in ascending key order, keys distinct. \<open>txn_Get\<close> is
  \<open>txn.Get\<close> (\<open>None\<close> is \<open>badger.ErrKeyNotFound\<close>), \<open>txn_Set\<close> is \<open>txn.Set\<close> followed by
  the commit, and \<open>it_Seek\<close> positions a forward iterator on the first item whose key is
  not below the given key. An iterator created with \<open>iterOpts.Prefix\<close> is valid as long as
  the key of its item has that prefix. Transactions of the model always commit; I/O
  failures of the store are not modelled.
\<close>

type_synonym store = "(byte list \<times> byte list) list"

definition txn_Get :: "store \<Rightarrow> byte list \<Rightarrow> byte list option" where
  "txn_Get kv key = map_of kv key"

fun txn_Set :: "store \<Rightarrow> byte list \<Rightarrow> byte list \<Rightarrow> store" where
  "txn_Set [] key val = [(key, val)]"
| "txn_Set ((k, v) # rest) key val =
     (if key < k then (key, val) # (k, v) # rest
      else if key = k then (key, val) # rest
      else (k, v) # txn_Set rest key val)"



section \<open>The raw write path (encoding.go, write.go)\<close>

text \<open>
  \<open>EncodeDataValue\<close> stores \<open>math.Float64bits(value)\<close> big-endian; the conversion is a
  parameter. \<open>WriteRaw\<close> encodes key and value into fresh buffers and sets them in the
  batch; the model applies the set at once, as \<open>Flush\<close> does for a batch of one write.
\<close>

definition EncodeDataValue :: "('v \<Rightarrow> uint64) \<Rightarrow> byte list \<Rightarrow> 'v \<Rightarrow> (byte list \<times> nat) option" where
  "EncodeDataValue Float64bits buf value =
     (if length buf < 8 then None else Some (PutUint64 (Float64bits value) @ drop 8 buf, 8))"

definition WriteRaw :: "('v \<Rightarrow> uint64) \<Rightarrow> store \<Rightarrow> SeriesID \<Rightarrow> 'v \<Rightarrow> int64 \<Rightarrow> store option" where
  "WriteRaw Float64bits kv seriesID value timestamp =
     (case EncodeDataKey (make_bytes DataKeySize) seriesID timestamp of
        None \<Rightarrow> None
      | Some (keyBuf, _) \<Rightarrow>
          (case EncodeDataValue Float64bits (make_bytes 8) value of
             None \<Rightarrow> None
           | Some (valueBuf, _) \<Rightarrow> Some (txn_Set kv keyBuf valueBuf)))"

section \<open>Per-series range read (read.go)\<close>




text \<open>
  Well-formed stores: keys ascending, and every item under the prefix \<open>'d'\<close> has a key
  that is the encoding of the id and timestamp it decodes to, and a value of 8 bytes.
  This is what the write path maintains (\<open>store_wf_WriteRaw\<close> below).
  \<open>series_timestamps\<close> lists the timestamps stored for a series, in key order.
\<close>

definition is_data_key :: "byte list \<Rightarrow> bool" where
  "is_data_key k =
     (case DecodeDataKey k of
        None \<Rightarrow> False
      | Some (sid, ts) \<Rightarrow> k = PrefixData # PutUint64 sid @ PutUint64 (NOT ts))"

definition store_wf :: "store \<Rightarrow> bool" where
  "store_wf kv \<longleftrightarrow>
     sorted_wrt (<) (map fst kv)
     \<and> list_all (\<lambda>(k, v). prefix [PrefixData] k \<longrightarrow> is_data_key k \<and> length v = 8) kv"





text \<open>A store holding the points 1000, 2000 and 3000 of series 7.\<close>

definition example_store :: store where
  "example_store =
     [([0x64, 0, 0, 0, 0, 0, 0, 0, 7, 255, 255, 255, 255, 255, 255, 244, 71], [0, 0, 0, 0, 0, 0, 0, 3]),
      ([0x64, 0, 0, 0, 0, 0, 0, 0, 7, 255, 255, 255, 255, 255, 255, 248, 47], [0, 0, 0, 0, 0, 0, 0, 2]),
      ([0x64, 0, 0, 0, 0, 0, 0, 0, 7, 255, 255, 255, 255, 255, 255, 252, 23], [0, 0, 0, 0, 0, 0, 0, 1])]"


section \<open>Bitmaps and their set operations (index.go)\<close>

text \<open>
  A \<open>*roaring64.Bitmap\<close> is a reference to a mutable set of \<open>uint64\<close>. The heap holds the
  bitmaps allocated so far; a reference is an index into it, and a reference outside the
  heap stands for \<open>nil\<close>, on which every method panics (\<open>None\<close>). \<open>roaring_New\<close> is
  \<open>roaring64.New()\<close>, \<open>Clone\<close> allocates a copy, \<open>And\<close> and \<open>Or\<close> update their receiver in
  place.
\<close>

type_synonym bitmap = "uint64 set"
type_synonym bitmap_ref = nat
type_synonym heap = "bitmap list"

definition roaring_New :: "heap \<Rightarrow> heap \<times> bitmap_ref" where
  "roaring_New h = (h @ [{}], length h)"

definition Clone :: "heap \<Rightarrow> bitmap_ref \<Rightarrow> (heap \<times> bitmap_ref) option" where
  "Clone h bm = (if bm < length h then Some (h @ [h ! bm], length h) else None)"

definition And :: "heap \<Rightarrow> bitmap_ref \<Rightarrow> bitmap_ref \<Rightarrow> heap option" where
  "And h r bm = (if r < length h \<and> bm < length h then Some (h[r := h ! r \<inter> h ! bm]) else None)"

definition Or :: "heap \<Rightarrow> bitmap_ref \<Rightarrow> bitmap_ref \<Rightarrow> heap option" where
  "Or h r bm = (if r < length h \<and> bm < length h then Some (h[r := h ! r \<union> h ! bm]) else None)"

text \<open>
  The loops \<open>for _, bm := range bitmaps[1:] { result.And(bm) }\<close> of \<open>Intersect\<close> and
  \<open>result.Or(bm)\<close> of \<open>Union\<close>.
\<close>

fun and_each :: "heap \<Rightarrow> bitmap_ref \<Rightarrow> bitmap_ref list \<Rightarrow> heap option" where
  "and_each h result [] = Some h"
| "and_each h result (bm # bms) =
     (case And h result bm of None \<Rightarrow> None | Some h' \<Rightarrow> and_each h' result bms)"

fun or_each :: "heap \<Rightarrow> bitmap_ref \<Rightarrow> bitmap_ref list \<Rightarrow> heap option" where
  "or_each h result [] = Some h"
| "or_each h result (bm # bms) =
     (case Or h result bm of None \<Rightarrow> None | Some h' \<Rightarrow> or_each h' result bms)"

definition Intersect :: "heap \<Rightarrow> bitmap_ref list \<Rightarrow> (heap \<times> bitmap_ref) option" where
  "Intersect h bitmaps =
     (if length bitmaps = 0 then Some (roaring_New h)
      else if length bitmaps = 1 then Clone h (hd bitmaps)
      else (case Clone h (hd bitmaps) of
              None \<Rightarrow> None
            | Some (h1, result) \<Rightarrow>
                (case and_each h1 result (tl bitmaps) of
                   None \<Rightarrow> None
                 | Some h2 \<Rightarrow> Some (h2, result))))"

definition Union :: "heap \<Rightarrow> bitmap_ref list \<Rightarrow> (heap \<times> bitmap_ref) option" where
  "Union h bitmaps =
     (if length bitmaps = 0 then Some (roaring_New h)
      else if length bitmaps = 1 then Clone h (hd bitmaps)
      else (case Clone h (hd bitmaps) of
              None \<Rightarrow> None
            | Some (h1, result) \<Rightarrow>
                (case or_each h1 result (tl bitmaps) of
                   None \<Rightarrow> None
                 | Some h2 \<Rightarrow> Some (h2, result))))"


section \<open>Series registry and tag index (series.go, tagset.go, index.go)\<close>

text \<open>
  Errors of the package as values: a failed \<open>json.Marshal\<close>, a failed
  \<open>Bitmap.ReadFrom\<close>, and a runtime panic. Strings are Go strings, sequences of bytes;
  \<open>bytes_of\<close> is the conversion \<open>[]byte(s)\<close>.
\<close>

datatype error = ErrMarshal | ErrReadFrom | Panic

definition bytes_of :: "string \<Rightarrow> byte list" where
  "bytes_of s = map (\<lambda>c. of_nat (of_char c)) s"

text \<open>
  The fields \<open>Key\<close> and \<open>Value\<close> of a tag are named \<open>TagKey\<close> and \<open>TagValue\<close>.
  \<open>Tagset.Sort\<close> orders by key, then value, both compared as byte strings; two tags
  that compare equal are the same tag, so the result does not depend on the stability
  of \<open>sort.Slice\<close>.
\<close>

record Tag =
  TagKey :: string
  TagValue :: string

type_synonym Tagset = "Tag list"

definition Sort :: "Tagset \<Rightarrow> Tagset" where
  "Sort t = sort_key (\<lambda>tag. (TagKey tag, TagValue tag)) t"

record SeriesMeta =
  Metric :: string
  Tags :: Tagset

text \<open>
  \<open>ComputeSeriesID\<close> writes the metric and then each tag's key and value into the
  xxHash digest and takes \<open>Sum64\<close>; the hash of the bytes written is a parameter.
\<close>

definition ComputeSeriesID :: "(string \<Rightarrow> uint64) \<Rightarrow> string \<Rightarrow> Tagset \<Rightarrow> SeriesID" where
  "ComputeSeriesID Sum64 metric tags =
     Sum64 (metric @ concat (map (\<lambda>t. TagKey t @ TagValue t) tags))"

text \<open>
  The state of a \<open>Database\<close>: the store \<open>db\<close>, which the series registry and the tag
  index share, the registry's cache of known series ids, and the index's cache from
  posting key to bitmap.
\<close>

record Database =
  db :: store
  series_cache :: "SeriesID set"
  index_cache :: "string \<rightharpoonup> bitmap_ref"

text \<open>
  \<open>GetOrCreate\<close> returns the state after the call, the tag set as sorted in place, the
  series id, \<open>created\<close> and the error. \<open>json.Marshal\<close> is a parameter.
\<close>

definition GetOrCreate ::
  "(string \<Rightarrow> uint64) \<Rightarrow> (SeriesMeta \<Rightarrow> error + byte list) \<Rightarrow> Database \<Rightarrow> string \<Rightarrow> Tagset
     \<Rightarrow> Database \<times> Tagset \<times> SeriesID \<times> bool \<times> error option" where
  "GetOrCreate Sum64 json_Marshal d metric tags0 =
     (let tags = Sort tags0;
          id = ComputeSeriesID Sum64 metric tags
      in if id \<in> series_cache d then (d, tags, id, False, None)
         else (case EncodeSeriesKey (make_bytes SeriesKeySize) id of
                 None \<Rightarrow> (d, tags, id, False, Some Panic)
               | Some (keyBuf, _) \<Rightarrow>
                   (case txn_Get (db d) keyBuf of
                      Some _ \<Rightarrow> (d\<lparr>series_cache := insert id (series_cache d)\<rparr>, tags, id, False, None)
                    | None \<Rightarrow>
                        (case json_Marshal \<lparr>Metric = metric, Tags = tags\<rparr> of
                           Inl err \<Rightarrow> (d, tags, id, False, Some err)
                         | Inr value \<Rightarrow>
                             (d\<lparr>db := txn_Set (db d) keyBuf value,
                                series_cache := insert id (series_cache d)\<rparr>,
                              tags, id, True, None)))))"

definition formatTagKey :: "string \<Rightarrow> string \<Rightarrow> string \<Rightarrow> string" where
  "formatTagKey metric tagKey tagValue =
     (if tagKey = [] then metric else metric @ ''#'' @ tagKey @ '':'' @ tagValue)"

text \<open>
  \<open>getBitmap\<close> returns the cached bitmap, or loads the posting from the store (an absent
  key gives a new empty bitmap) and caches it. Deserialisation is a parameter.
\<close>

definition getBitmap ::
  "(byte list \<Rightarrow> error + bitmap) \<Rightarrow> heap \<Rightarrow> Database \<Rightarrow> string
     \<Rightarrow> error + (heap \<times> Database \<times> bitmap_ref)" where
  "getBitmap ReadFrom h d key =
     (case index_cache d key of
        Some bm \<Rightarrow> Inr (h, d, bm)
      | None \<Rightarrow>
          (let indexKey = PrefixIndex # bytes_of key
           in case txn_Get (db d) indexKey of
                None \<Rightarrow>
                  (let (h', bm) = roaring_New h
                   in Inr (h', d\<lparr>index_cache := (index_cache d)(key \<mapsto> bm)\<rparr>, bm))
              | Some val \<Rightarrow>
                  (let (h', bm) = roaring_New h
                   in case ReadFrom val of
                        Inl err \<Rightarrow> Inl err
                      | Inr content \<Rightarrow>
                          Inr (h'[bm := content], d\<lparr>index_cache := (index_cache d)(key \<mapsto> bm)\<rparr>, bm))))"

definition GetSeriesIDs ::
  "(byte list \<Rightarrow> error + bitmap) \<Rightarrow> heap \<Rightarrow> Database \<Rightarrow> string \<Rightarrow> string \<Rightarrow> string
     \<Rightarrow> error + (heap \<times> Database \<times> bitmap_ref)" where
  "GetSeriesIDs ReadFrom h d metric tagKey tagValue =
     getBitmap ReadFrom h d (formatTagKey metric tagKey tagValue)"

definition GetAllSeriesIDs ::
  "(byte list \<Rightarrow> error + bitmap) \<Rightarrow> heap \<Rightarrow> Database \<Rightarrow> string
     \<Rightarrow> error + (heap \<times> Database \<times> bitmap_ref)" where
  "GetAllSeriesIDs ReadFrom h d metric = getBitmap ReadFrom h d metric"


section \<open>Filter expressions (filter.go)\<close>

text \<open>
  The three implementations of the interface \<open>Filter\<close> as one datatype.
\<close>

datatype Filter = TagFilter string string | AndFilter Filter Filter | OrFilter Filter Filter

text \<open>
  Tokens. The fields \<open>typ\<close> and \<open>val\<close> of \<open>token\<close> are written \<open>tok_typ\<close> and
  \<open>tok_val\<close>. The lexer is its input, a string of bytes, and a position in it.
\<close>

datatype tokenType = tokenEOF | tokenIdent | tokenColon | tokenAnd | tokenOr | tokenLParen | tokenRParen

record token =
  tok_typ :: tokenType
  tok_val :: string

record lexer =
  input :: string
  pos :: nat

definition newLexer :: "string \<Rightarrow> lexer" where
  "newLexer s = \<lparr>input = s, pos = 0\<rparr>"

text \<open>
  \<open>unicode.IsSpace(rune(b))\<close> for a byte \<open>b\<close>: the byte is taken as the code point of
  the same number, so the white space below 256 is what can be met.
\<close>

definition IsSpace :: "char \<Rightarrow> bool" where
  "IsSpace ch \<longleftrightarrow> (of_char ch :: nat) \<in> {0x09, 0x0A, 0x0B, 0x0C, 0x0D, 0x20, 0x85, 0xA0}"

definition isIdentStart :: "char \<Rightarrow> bool" where
  "isIdentStart ch \<longleftrightarrow>
     (CHR ''a'' \<le> ch \<and> ch \<le> CHR ''z'') \<or> (CHR ''A'' \<le> ch \<and> ch \<le> CHR ''Z'')
     \<or> ch = CHR ''_'' \<or> (CHR ''0'' \<le> ch \<and> ch \<le> CHR ''9'')"

definition isIdentChar :: "char \<Rightarrow> bool" where
  "isIdentChar ch \<longleftrightarrow>
     isIdentStart ch \<or> (CHR ''0'' \<le> ch \<and> ch \<le> CHR ''9'') \<or> ch = CHR ''-'' \<or> ch = CHR ''.''"

text \<open>
  The two loops of the lexer move the position forward while it is inside the input.
\<close>

function skipWhitespace :: "lexer \<Rightarrow> lexer" where
  "skipWhitespace l =
     (if pos l < length (input l) \<and> IsSpace (input l ! pos l)
      then skipWhitespace (l\<lparr>pos := pos l + 1\<rparr>) else l)"
  by pat_completeness auto
termination
  by (relation "measure (\<lambda>l. length (input l) - pos l)") auto

declare skipWhitespace.simps [simp del]

function scanIdentLoop :: "lexer \<Rightarrow> lexer" where
  "scanIdentLoop l =
     (if pos l < length (input l) \<and> isIdentChar (input l ! pos l)
      then scanIdentLoop (l\<lparr>pos := pos l + 1\<rparr>) else l)"
  by pat_completeness auto
termination
  by (relation "measure (\<lambda>l. length (input l) - pos l)") auto

declare scanIdentLoop.simps [simp del]

text \<open>
  \<open>strings.ToUpper\<close>, on the bytes of an identifier (letters, digits, \<open>_\<close>, \<open>-\<close>, \<open>.\<close>).
\<close>

definition ToUpper :: "string \<Rightarrow> string" where
  "ToUpper s = map (\<lambda>c. if CHR ''a'' \<le> c \<and> c \<le> CHR ''z'' then char_of (of_char c - (32 :: nat)) else c) s"

definition scanIdent :: "lexer \<Rightarrow> token \<times> lexer" where
  "scanIdent l =
     (let start = pos l;
          l' = scanIdentLoop l;
          v = take (pos l' - start) (drop start (input l'));
          upper = ToUpper v
      in if upper = ''AND'' then (\<lparr>tok_typ = tokenAnd, tok_val = v\<rparr>, l')
         else if upper = ''OR'' then (\<lparr>tok_typ = tokenOr, tok_val = v\<rparr>, l')
         else (\<lparr>tok_typ = tokenIdent, tok_val = v\<rparr>, l'))"

text \<open>
  \<open>lexer.next\<close>: the token read and the lexer after it. A byte that starts no token
  is stepped over and reported as \<open>tokenEOF\<close>.
\<close>

definition lexer_next :: "lexer \<Rightarrow> token \<times> lexer" where
  "lexer_next l0 =
     (let l = skipWhitespace l0
      in if pos l \<ge> length (input l) then (\<lparr>tok_typ = tokenEOF, tok_val = ''''\<rparr>, l)
         else (let ch = input l ! pos l
               in if ch = CHR '':'' then (\<lparr>tok_typ = tokenColon, tok_val = '':''\<rparr>, l\<lparr>pos := pos l + 1\<rparr>)
                  else if ch = CHR ''('' then (\<lparr>tok_typ = tokenLParen, tok_val = ''(''\<rparr>, l\<lparr>pos := pos l + 1\<rparr>)
                  else if ch = CHR '')'' then (\<lparr>tok_typ = tokenRParen, tok_val = '')''\<rparr>, l\<lparr>pos := pos l + 1\<rparr>)
                  else if isIdentStart ch then scanIdent l
                  else (\<lparr>tok_typ = tokenEOF, tok_val = ''''\<rparr>, l\<lparr>pos := pos l + 1\<rparr>)))"

text \<open>
  The parser holds the lexer and the current token.
\<close>

record parser =
  lex :: lexer
  cur :: token

definition newParser :: "string \<Rightarrow> parser" where
  "newParser s = (let (t, l) = lexer_next (newLexer s) in \<lparr>lex = l, cur = t\<rparr>)"

definition advance :: "parser \<Rightarrow> parser" where
  "advance p = (let (t, l) = lexer_next (lex p) in \<lparr>lex = l, cur = t\<rparr>)"

text \<open>
  The four errors of the parser, each with the text of the offending token.
\<close>

datatype parse_error =
  ExpectedTagKey string | ExpectedColon string | ExpectedTagValue string | ExpectedRParen string

definition parseTag :: "parser \<Rightarrow> (parse_error + Filter) \<times> parser" where
  "parseTag p =
     (if tok_typ (cur p) \<noteq> tokenIdent then (Inl (ExpectedTagKey (tok_val (cur p))), p)
      else (let key = tok_val (cur p); p1 = advance p
            in if tok_typ (cur p1) \<noteq> tokenColon then (Inl (ExpectedColon (tok_val (cur p1))), p1)
               else (let p2 = advance p1
                     in if tok_typ (cur p2) \<noteq> tokenIdent then (Inl (ExpectedTagValue (tok_val (cur p2))), p2)
                        else (Inr (TagFilter key (tok_val (cur p2))), advance p2))))"

text \<open>
  The recursive descent, with the two \<open>for\<close> loops as \<open>parseExprLoop\<close> and
  \<open>parseTermLoop\<close>. Every call and every turn of a loop costs one unit of fuel;
  \<open>None\<close> is fuel exhausted. An error ends the parse at once.
\<close>

fun parseExpr :: "nat \<Rightarrow> parser \<Rightarrow> ((parse_error + Filter) \<times> parser) option"
  and parseExprLoop :: "nat \<Rightarrow> Filter \<Rightarrow> parser \<Rightarrow> ((parse_error + Filter) \<times> parser) option"
  and parseTerm :: "nat \<Rightarrow> parser \<Rightarrow> ((parse_error + Filter) \<times> parser) option"
  and parseTermLoop :: "nat \<Rightarrow> Filter \<Rightarrow> parser \<Rightarrow> ((parse_error + Filter) \<times> parser) option"
  and parseFactor :: "nat \<Rightarrow> parser \<Rightarrow> ((parse_error + Filter) \<times> parser) option"
where
  "parseExpr 0 p = None"
| "parseExpr (Suc n) p =
     (case parseTerm n p of
        None \<Rightarrow> None
      | Some (Inl err, p1) \<Rightarrow> Some (Inl err, p1)
      | Some (Inr left, p1) \<Rightarrow> parseExprLoop n left p1)"
| "parseExprLoop 0 left p = None"
| "parseExprLoop (Suc n) left p =
     (if tok_typ (cur p) = tokenOr
      then (case parseTerm n (advance p) of
              None \<Rightarrow> None
            | Some (Inl err, p1) \<Rightarrow> Some (Inl err, p1)
            | Some (Inr right, p1) \<Rightarrow> parseExprLoop n (OrFilter left right) p1)
      else Some (Inr left, p))"
| "parseTerm 0 p = None"
| "parseTerm (Suc n) p =
     (case parseFactor n p of
        None \<Rightarrow> None
      | Some (Inl err, p1) \<Rightarrow> Some (Inl err, p1)
      | Some (Inr left, p1) \<Rightarrow> parseTermLoop n left p1)"
| "parseTermLoop 0 left p = None"
| "parseTermLoop (Suc n) left p =
     (if tok_typ (cur p) = tokenAnd
      then (case parseFactor n (advance p) of
              None \<Rightarrow> None
            | Some (Inl err, p1) \<Rightarrow> Some (Inl err, p1)
            | Some (Inr right, p1) \<Rightarrow> parseTermLoop n (AndFilter left right) p1)
      else Some (Inr left, p))"
| "parseFactor 0 p = None"
| "parseFactor (Suc n) p =
     (if tok_typ (cur p) = tokenLParen
      then (case parseExpr n (advance p) of
              None \<Rightarrow> None
            | Some (Inl err, p1) \<Rightarrow> Some (Inl err, p1)
            | Some (Inr expr, p1) \<Rightarrow>
                (if tok_typ (cur p1) \<noteq> tokenRParen then Some (Inl (ExpectedRParen (tok_val (cur p1))), p1)
                 else Some (Inr expr, advance p1)))
      else Some (parseTag p))"

text \<open>
  \<open>strings.TrimSpace(input) == ""\<close>: the input is a sequence of UTF-8 encoded white
  space characters (U+0009..U+000D, U+0020, U+0085, U+00A0, U+1680, U+2000..U+200A,
  U+2028, U+2029, U+202F, U+205F, U+3000).
\<close>

fun TrimSpace_empty :: "string \<Rightarrow> bool" where
  "TrimSpace_empty [] = True"
| "TrimSpace_empty (c # cs) =
     (let b = (of_char c :: nat)
      in if b \<in> {0x09, 0x0A, 0x0B, 0x0C, 0x0D, 0x20} then TrimSpace_empty cs
         else if b = 0xC2 then
           (case cs of
              d # ds \<Rightarrow> (of_char d :: nat) \<in> {0x85, 0xA0} \<and> TrimSpace_empty ds
            | _ \<Rightarrow> False)
         else if b = 0xE1 then
           (case cs of
              d # e # es \<Rightarrow> (of_char d :: nat) = 0x9A \<and> (of_char e :: nat) = 0x80 \<and> TrimSpace_empty es
            | _ \<Rightarrow> False)
         else if b = 0xE2 then
           (case cs of
              d # e # es \<Rightarrow>
                (((of_char d :: nat) = 0x80
                    \<and> ((0x80 \<le> (of_char e :: nat) \<and> (of_char e :: nat) \<le> 0x8A)
                        \<or> (of_char e :: nat) \<in> {0xA8, 0xA9, 0xAF}))
                 \<or> ((of_char d :: nat) = 0x81 \<and> (of_char e :: nat) = 0x9F))
                \<and> TrimSpace_empty es
            | _ \<Rightarrow> False)
         else if b = 0xE3 then
           (case cs of
              d # e # es \<Rightarrow> (of_char d :: nat) = 0x80 \<and> (of_char e :: nat) = 0x80 \<and> TrimSpace_empty es
            | _ \<Rightarrow> False)
         else False)"

text \<open>
  \<open>ParseFilter\<close> returns \<open>(nil, nil)\<close> on blank input, here \<open>Inr None\<close>, and otherwise
  the result of \<open>parseExpr\<close>. The fuel \<open>3 * len + 6\<close> is enough for every input
  (lemma \<open>ParseFilter_returns\<close> below).
\<close>

definition ParseFilter :: "string \<Rightarrow> (parse_error + Filter option) option" where
  "ParseFilter s =
     (if TrimSpace_empty s then Some (Inr None)
      else (case parseExpr (3 * length s + 6) (newParser s) of
              None \<Rightarrow> None
            | Some (Inl err, _) \<Rightarrow> Some (Inl err)
            | Some (Inr f, _) \<Rightarrow> Some (Inr (Some f))))"

subsection \<open>Notions used to reason about the lexer and the parser\<close>

text \<open>The token of an identifier: \<open>AND\<close> and \<open>OR\<close> in any case are the operators.\<close>

definition classify :: "string \<Rightarrow> token" where
  "classify v =
     (if ToUpper v = ''AND'' then \<lparr>tok_typ = tokenAnd, tok_val = v\<rparr>
      else if ToUpper v = ''OR'' then \<lparr>tok_typ = tokenOr, tok_val = v\<rparr>
      else \<lparr>tok_typ = tokenIdent, tok_val = v\<rparr>)"

text \<open>The lexer as a function of the input left to read: the next token and the number of bytes consumed.\<close>

definition lex_suffix :: "string \<Rightarrow> token \<times> nat" where
  "lex_suffix s =
     (let n = length (takeWhile IsSpace s)
      in case dropWhile IsSpace s of
           [] \<Rightarrow> (\<lparr>tok_typ = tokenEOF, tok_val = ''''\<rparr>, n)
         | ch # r \<Rightarrow>
             if ch = CHR '':'' then (\<lparr>tok_typ = tokenColon, tok_val = '':''\<rparr>, n + 1)
             else if ch = CHR ''('' then (\<lparr>tok_typ = tokenLParen, tok_val = ''(''\<rparr>, n + 1)
             else if ch = CHR '')'' then (\<lparr>tok_typ = tokenRParen, tok_val = '')''\<rparr>, n + 1)
             else if isIdentStart ch
               then (classify (takeWhile isIdentChar (ch # r)),
                     n + length (takeWhile isIdentChar (ch # r)))
             else (\<lparr>tok_typ = tokenEOF, tok_val = ''''\<rparr>, n + 1))"

text \<open>The position of the lexer is inside its input or at its end.\<close>

definition parser_wf :: "parser \<Rightarrow> bool" where
  "parser_wf p \<longleftrightarrow> pos (lex p) \<le> length (input (lex p))"

text \<open>A bound on the tokens still to come: the bytes not yet read, and the current token unless it is the end.\<close>

definition tokens_left :: "parser \<Rightarrow> nat" where
  "tokens_left p =
     length (input (lex p)) - pos (lex p) + (if tok_typ (cur p) = tokenEOF then 0 else 1)"

text \<open>White space, then a byte that starts no token, then anything.\<close>

definition ignored_tail :: "string \<Rightarrow> bool" where
  "ignored_tail tail \<longleftrightarrow>
     (\<exists>ws c rest. tail = ws @ c # rest \<and> (\<forall>w \<in> set ws. IsSpace w) \<and> \<not> IsSpace c
        \<and> \<not> isIdentChar c \<and> c \<noteq> CHR '':'' \<and> c \<noteq> CHR ''('' \<and> c \<noteq> CHR '')'')"

text \<open>Two parsers, one on \<open>E\<close> and one on \<open>E @ tail\<close>, that have read the same tokens.\<close>

definition sim :: "string \<Rightarrow> string \<Rightarrow> parser \<Rightarrow> parser \<Rightarrow> bool" where
  "sim E tail p p' \<longleftrightarrow>
     cur p = cur p'
     \<and> (tok_typ (cur p) = tokenEOF
        \<or> (input (lex p) = E \<and> input (lex p') = E @ tail
            \<and> pos (lex p') = pos (lex p) \<and> pos (lex p) \<le> length E))"

text \<open>Two runs end alike: the same result, in parsers that have read the same tokens.\<close>

definition sim_result ::
  "string \<Rightarrow> string \<Rightarrow> ((parse_error + Filter) \<times> parser) option
     \<Rightarrow> ((parse_error + Filter) \<times> parser) option \<Rightarrow> bool" where
  "sim_result E tail r r' \<longleftrightarrow>
     (r = None \<and> r' = None)
     \<or> (\<exists>res q q'. r = Some (res, q) \<and> r' = Some (res, q') \<and> sim E tail q q')"

text \<open>A run returns, in a well-formed parser with at most \<open>m\<close> tokens to come.\<close>

definition returns_within :: "nat \<Rightarrow> ((parse_error + Filter) \<times> parser) option \<Rightarrow> bool" where
  "returns_within m r \<longleftrightarrow> (\<exists>res q. r = Some (res, q) \<and> parser_wf q \<and> tokens_left q \<le> m)"


text \<open>
  An instance of the parameters for concrete runs: a hash that reads the bytes as a
  big-endian numeral (injective on strings of up to eight bytes that do not start with a
  zero byte), a marshaller that keeps the metric, and the state after \<open>Open\<close> on an
  empty store.
\<close>

definition example_Sum64 :: "string \<Rightarrow> uint64" where
  "example_Sum64 s = of_nat (be_val (bytes_of s))"

definition example_Marshal :: "SeriesMeta \<Rightarrow> error + byte list" where
  "example_Marshal m = Inr (bytes_of (Metric m))"

definition empty_Database :: Database where
  "empty_Database = \<lparr>db = [], series_cache = {}, index_cache = Map.empty\<rparr>"


section \<open>Facts about the big-endian codec\<close>

lemma length_PutUint64: "length (PutUint64 v) = 8"
  by (simp add: PutUint64_def)

lemma split_low_byte:
  "(x :: uint64) = ucast (ucast x :: byte) OR push_bit 8 (drop_bit 8 x)"
proof (rule bit_word_eqI)
  fix n assume "n < LENGTH(64)"
  then show "bit x n = bit (ucast (ucast x :: byte) OR push_bit 8 (drop_bit 8 x)) n"
    by (cases "n < 8") (auto simp: bit_simps not_less)
qed

lemma top_byte:
  "push_bit 56 (ucast (ucast (drop_bit 56 (x::uint64)) :: byte) :: uint64) = push_bit 56 (drop_bit 56 x)"
  by (rule bit_word_eqI) (auto simp: bit_simps)

lemma Uint64_PutUint64_append: "Uint64 (PutUint64 v @ rest) = Some v"
proof -
  have "v = ucast (ucast v :: byte) OR push_bit 8 (drop_bit 8 v)"
    by (rule split_low_byte)
  also have "drop_bit 8 v = ucast (ucast (drop_bit 8 v) :: byte) OR push_bit 8 (drop_bit 16 v)"
    using split_low_byte [of "drop_bit 8 v"] by simp
  also have "drop_bit 16 v = ucast (ucast (drop_bit 16 v) :: byte) OR push_bit 8 (drop_bit 24 v)"
    using split_low_byte [of "drop_bit 16 v"] by simp
  also have "drop_bit 24 v = ucast (ucast (drop_bit 24 v) :: byte) OR push_bit 8 (drop_bit 32 v)"
    using split_low_byte [of "drop_bit 24 v"] by simp
  also have "drop_bit 32 v = ucast (ucast (drop_bit 32 v) :: byte) OR push_bit 8 (drop_bit 40 v)"
    using split_low_byte [of "drop_bit 32 v"] by simp
  also have "drop_bit 40 v = ucast (ucast (drop_bit 40 v) :: byte) OR push_bit 8 (drop_bit 48 v)"
    using split_low_byte [of "drop_bit 40 v"] by simp
  also have "drop_bit 48 v = ucast (ucast (drop_bit 48 v) :: byte) OR push_bit 8 (drop_bit 56 v)"
    using split_low_byte [of "drop_bit 48 v"] by simp
  finally have "Uint64 (PutUint64 v @ rest) = Some v"
    by (simp add: PutUint64_def ac_simps flip: top_byte)
  then show ?thesis .
qed

lemma Uint64_PutUint64: "Uint64 (PutUint64 v) = Some v"
  using Uint64_PutUint64_append [of v "[]"] by simp















section \<open>Data keys: round trip and order\<close>

text \<open>
  C4. For every series id and every signed 64-bit timestamp, on a buffer of at least
  \<open>DataKeySize\<close> bytes, \<open>EncodeDataKey\<close> returns 17 and \<open>DecodeDataKey\<close> of the buffer it
  wrote returns exactly the id and the timestamp.
\<close>

theorem DecodeDataKey_EncodeDataKey:
  assumes "DataKeySize \<le> length buf"
  shows "\<exists>key. EncodeDataKey buf seriesID ts = Some (key, 17)
           \<and> length key = length buf
           \<and> DecodeDataKey key = Some (seriesID, ts)"
proof -
  let ?key = "PrefixData # PutUint64 seriesID @ PutUint64 (NOT ts) @ drop DataKeySize buf"
  have enc: "EncodeDataKey buf seriesID ts = Some (?key, 17)"
    using assms by (simp add: EncodeDataKey_def DataKeySize_def SeriesIDSize_def TimestampSize_def)
  have len: "length ?key = length buf"
    using assms by (simp add: length_PutUint64 DataKeySize_def SeriesIDSize_def TimestampSize_def)
  have a: "take 8 (drop 1 ?key) = PutUint64 seriesID"
    by (simp add: length_PutUint64)
  have b: "take 8 (drop 9 ?key) = PutUint64 (NOT ts)"
    by (simp add: length_PutUint64)
  have "DecodeDataKey ?key = Some (seriesID, ts)"
    unfolding DecodeDataKey_def a b using assms len
    by (simp add: Uint64_PutUint64)
  with enc len show ?thesis by blast
qed

theorem DecodeDataKey_EncodeDataKey_witness:
  "DataKeySize \<le> length (make_bytes 17)
   \<and> (\<exists>key. EncodeDataKey (make_bytes 17) (- 1) (- 9223372036854775808) = Some (key, 17)
           \<and> length key = length (make_bytes 17)
           \<and> DecodeDataKey key = Some (- 1, - 9223372036854775808))"
proof -
  have h: "DataKeySize \<le> length (make_bytes 17)"
    by (simp add: DataKeySize_def SeriesIDSize_def TimestampSize_def make_bytes_def)
  show ?thesis
    using h DecodeDataKey_EncodeDataKey [OF h, of "- 1" "- 9223372036854775808"] by simp
qed

text \<open>
  C1. The comment of \<open>EncodeDataKey\<close> promises that newer timestamps sort first. Timestamp
  \<open>0\<close> is newer than \<open>-1\<close> (a timestamp before the epoch, as the codec's own test uses),
  but the key of \<open>(100, 0)\<close> ends in eight bytes \<open>0xFF\<close> and the key of \<open>(100, -1)\<close> in
  eight bytes \<open>0x00\<close>: the newer key sorts after the older one.
\<close>

theorem EncodeDataKey_order_across_zero:
  "(- 1 :: int64) <s 0
   \<and> EncodeDataKey (make_bytes 17) 100 0
       = Some ([0x64, 0, 0, 0, 0, 0, 0, 0, 100, 255, 255, 255, 255, 255, 255, 255, 255], 17)
   \<and> EncodeDataKey (make_bytes 17) 100 (- 1)
       = Some ([0x64, 0, 0, 0, 0, 0, 0, 0, 100, 0, 0, 0, 0, 0, 0, 0, 0], 17)
   \<and> \<not> ([0x64, 0, 0, 0, 0, 0, 0, 0, 100, 255, 255, 255, 255, 255, 255, 255, 255 :: byte]
          < [0x64, 0, 0, 0, 0, 0, 0, 0, 100, 0, 0, 0, 0, 0, 0, 0, 0])"
  by code_simp


section \<open>Aggregation: bucket keys\<close>

lemma sdiv_pos_nonneg: "0 \<le> a \<Longrightarrow> 0 < b \<Longrightarrow> (a::int) sdiv b = a div b"
  by (cases "a = 0") (simp_all add: signed_divide_int_def)

lemma sdiv_pos_neg: "a < 0 \<Longrightarrow> 0 < b \<Longrightarrow> (a::int) sdiv b = - ((- a) div b)"
  by (simp add: signed_divide_int_def)

lemma sdiv_mult_between:
  fixes a b :: int
  assumes "0 < b"
  shows "(0 \<le> a \<longrightarrow> 0 \<le> (a sdiv b) * b \<and> (a sdiv b) * b \<le> a)
       \<and> (a < 0 \<longrightarrow> a \<le> (a sdiv b) * b \<and> (a sdiv b) * b \<le> 0)"
proof (cases "0 \<le> a")
  case True
  have "0 \<le> a div b" using True assms by (simp add: pos_imp_zdiv_nonneg_iff)
  then have "0 \<le> (a div b) * b" using assms by simp
  moreover have "(a div b) * b \<le> a"
    using div_mult_mod_eq [of a b] pos_mod_sign [OF assms, of a] by linarith
  ultimately show ?thesis using True assms by (simp add: sdiv_pos_nonneg)
next
  case False
  then have neg: "a < 0" by simp
  have "0 \<le> (- a) div b" using neg assms by (simp add: pos_imp_zdiv_nonneg_iff)
  then have "0 \<le> ((- a) div b) * b" using assms by simp
  moreover have "((- a) div b) * b \<le> - a"
    using div_mult_mod_eq [of "- a" b] pos_mod_sign [OF assms, of "- a"] by linarith
  ultimately show ?thesis using neg assms by (simp add: sdiv_pos_neg)
qed

lemma sdiv_between:
  fixes a b :: int
  assumes "0 < b"
  shows "(0 \<le> a \<longrightarrow> 0 \<le> a sdiv b \<and> a sdiv b \<le> a)
       \<and> (a < 0 \<longrightarrow> a \<le> a sdiv b \<and> a sdiv b \<le> 0)"
proof (cases "0 \<le> a")
  case True
  have q: "0 \<le> a sdiv b" using True assms by (simp add: sdiv_pos_nonneg pos_imp_zdiv_nonneg_iff)
  then have "(a sdiv b) * 1 \<le> (a sdiv b) * b" using assms by (intro mult_left_mono) auto
  then show ?thesis using q True sdiv_mult_between [OF assms, of a] by simp
next
  case False
  then have neg: "a < 0" by simp
  have q: "0 \<le> - (a sdiv b)" using neg assms by (simp add: sdiv_pos_neg pos_imp_zdiv_nonneg_iff)
  then have "(- (a sdiv b)) * 1 \<le> (- (a sdiv b)) * b" using assms by (intro mult_left_mono) auto
  then show ?thesis using q neg sdiv_mult_between [OF assms, of a] by simp
qed

lemma sint_word_of_int_self:
  "- (2 ^ 63) \<le> k \<Longrightarrow> k < 2 ^ 63 \<Longrightarrow> sint (word_of_int k :: int64) = k"
  by (simp add: sint_sbintrunc' signed_take_bit_int_eq_self)

lemma sint_range64: "- (2 ^ 63) \<le> sint (a :: int64)" "sint (a :: int64) < 2 ^ 63"
  using sint_ge [of a] sint_lt [of a] by simp_all

lemma sint_int64_div:
  assumes "0 <s b"
  shows "sint (int64_div a b) = sint a sdiv sint b"
proof -
  have b: "0 < sint b" using assms by (simp add: word_sless_alt)
  have "- (2 ^ 63) \<le> sint a sdiv sint b" "sint a sdiv sint b < 2 ^ 63"
    using sdiv_between [OF b, of "sint a"] sint_range64 [of a] by linarith+
  then show ?thesis by (simp add: int64_div_def sint_word_of_int_self)
qed

lemma sint_bucket_key:
  assumes "0 <s bucketSize"
  shows "sint (bucket_key ts bucketSize) = (sint ts sdiv sint bucketSize) * sint bucketSize"
proof -
  have b: "0 < sint bucketSize" using assms by (simp add: word_sless_alt)
  let ?q = "sint ts sdiv sint bucketSize"
  have "- (2 ^ 63) \<le> ?q * sint bucketSize" "?q * sint bucketSize < 2 ^ 63"
    using sdiv_mult_between [OF b, of "sint ts"] sint_range64 [of ts] by linarith+
  then have "signed_take_bit 63 (?q * sint bucketSize) = ?q * sint bucketSize"
    by (simp add: signed_take_bit_int_eq_self)
  then show ?thesis
    by (simp add: bucket_key_def sint_word_mult sint_int64_div [OF assms])
qed

lemma sint_bucket_key_floor:
  assumes "0 <s bucketSize" "0 \<le>s ts"
  shows "sint (bucket_key ts bucketSize)
         = \<lfloor>real_of_int (sint ts) / real_of_int (sint bucketSize)\<rfloor> * sint bucketSize"
proof -
  have "0 < sint bucketSize" "0 \<le> sint ts"
    using assms by (simp_all add: word_sless_alt word_sle_eq)
  moreover have "\<lfloor>real_of_int (sint ts) / real_of_int (sint bucketSize)\<rfloor> = sint ts div sint bucketSize"
    by (rule floor_divide_of_int_eq)
  ultimately show ?thesis
    by (simp only: sint_bucket_key [OF assms(1)] sdiv_pos_nonneg)
qed


lemma acc_count_add: "acc_count (add a v) = acc_count a + 1"
  by (simp add: add_def Let_def)

lemma map_of_bucket_add:
  "map_of (bucket_add buckets key v) k =
     (if k = key then Some (add (case map_of buckets key of None \<Rightarrow> new_accumulator | Some a \<Rightarrow> a) v)
      else map_of buckets k)"
proof (cases "map_of buckets key")
  case None
  then show ?thesis by (auto simp: bucket_add_def map_add_def split: option.splits)
next
  case (Some acc)
  have "map_of (map (\<lambda>(k', a). if k' = key then (k', add a v) else (k', a)) bs) k =
        (if k = key then map_option (\<lambda>a. add a v) (map_of bs key) else map_of bs k)" for bs
    by (induction bs) auto
  with Some show ?thesis by (simp add: bucket_add_def)
qed

lemma keys_bucket_add: "fst ` set (bucket_add buckets key v) = insert key (fst ` set buckets)"
proof -
  have "dom (map_of (bucket_add buckets key v)) = insert key (dom (map_of buckets))"
    by (auto simp: map_of_bucket_add split: if_splits)
  then show ?thesis by (simp add: dom_map_of_conv_image_fst)
qed

lemma map_fst_update:
  "map fst (map (\<lambda>(k', a). if k' = key then (k', f a) else (k', a)) bs) = map fst bs"
  by (induction bs) auto

lemma distinct_bucket_add:
  "distinct (map fst buckets) \<Longrightarrow> distinct (map fst (bucket_add buckets key v))"
proof (cases "map_of buckets key")
  case None
  then have "bucket_add buckets key v = buckets @ [(key, add new_accumulator v)]"
    by (simp add: bucket_add_def)
  moreover have "key \<notin> fst ` set buckets"
    using None by (simp add: map_of_eq_None_iff)
  moreover assume "distinct (map fst buckets)"
  ultimately show ?thesis by simp
next
  case (Some acc)
  then have "bucket_add buckets key v
             = map (\<lambda>(k', a). if k' = key then (k', add a v) else (k', a)) buckets"
    by (simp add: bucket_add_def)
  moreover assume "distinct (map fst buckets)"
  ultimately show ?thesis by (simp only: map_fst_update)
qed

lemma count_at_bucket_add:
  "count_at (bucket_add buckets key v) k = count_at buckets k + (if k = key then 1 else 0)"
  by (simp add: count_at_def map_of_bucket_add acc_count_add new_accumulator_def split: option.splits)

lemma distinct_fill_buckets:
  "distinct (map fst buckets) \<Longrightarrow> distinct (map fst (fill_buckets bucketSize buckets ps))"
  by (induction ps arbitrary: buckets) (simp_all add: distinct_bucket_add)

lemma keys_fill_buckets:
  "fst ` set (fill_buckets bucketSize buckets ps)
     = fst ` set buckets \<union> (\<lambda>p. bucket_key (Timestamp p) bucketSize) ` set ps"
  by (induction ps arbitrary: buckets) (auto simp: keys_bucket_add)

lemma count_at_fill_buckets:
  "count_at (fill_buckets bucketSize buckets ps) k
     = count_at buckets k + int (length (filter (\<lambda>p. bucket_key (Timestamp p) bucketSize = k) ps))"
  by (induction ps arbitrary: buckets) (auto simp: count_at_bucket_add)

lemma set_sortBuckets: "set (sortBuckets bs) = set bs"
  by (simp add: sortBuckets_def)

lemma Aggregate_has_bucket:
  assumes "0 <s BucketSize opts" "p \<in> set points"
  shows "\<exists>b \<in> set (Aggregate points opts).
           BucketTimestamp b = bucket_key (Timestamp p) (BucketSize opts)
         \<and> Count b = int (length (filter (\<lambda>q. bucket_key (Timestamp q) (BucketSize opts)
                                                 = bucket_key (Timestamp p) (BucketSize opts)) points))"
proof -
  let ?bs = "BucketSize opts"
  let ?k = "bucket_key (Timestamp p) ?bs"
  let ?B = "fill_buckets ?bs [] points"
  have "?k \<in> fst ` set ?B" using assms(2) by (simp add: keys_fill_buckets)
  then obtain a where a: "(?k, a) \<in> set ?B" by auto
  have "distinct (map fst ?B)" by (rule distinct_fill_buckets) simp
  with a have "map_of ?B ?k = Some a" by simp
  then have cnt: "acc_count a = int (length (filter (\<lambda>q. bucket_key (Timestamp q) ?bs = ?k) points))"
    using count_at_fill_buckets [of ?bs "[]" points ?k] by (simp add: count_at_def)
  have ne: "\<not> (length points = 0 \<or> ?bs \<le>s 0)"
    using assms by (auto simp: word_sle_eq word_sless_alt)
  let ?b = "\<lparr>BucketTimestamp = ?k, BucketValue = compute a (Func opts), Count = acc_count a\<rparr>"
  have "?b \<in> set (Aggregate points opts)"
    unfolding Aggregate_def using ne a by (simp add: set_sortBuckets) force
  with cnt show ?thesis by (intro bexI [of _ ?b]) simp_all
qed

text \<open>
  C2, as the code has it. For every point \<open>p\<close> of the input and every bucket size
  \<open>> 0\<close>, \<open>Aggregate\<close> returns a bucket whose timestamp is the quotient of the point's
  timestamp by the bucket size, truncated towards zero, times the bucket size; for a
  timestamp \<open>\<ge> 0\<close> this is \<open>floor(ts / bucketSize) * bucketSize\<close>; and that bucket counts
  exactly the points of the input with this key.
\<close>

theorem Aggregate_bucket_key:
  assumes "0 <s BucketSize opts" "p \<in> set points"
  shows "\<exists>b \<in> set (Aggregate points opts).
           sint (BucketTimestamp b)
             = (sint (Timestamp p) sdiv sint (BucketSize opts)) * sint (BucketSize opts)
         \<and> (0 \<le>s Timestamp p \<longrightarrow> sint (BucketTimestamp b)
             = \<lfloor>real_of_int (sint (Timestamp p)) / real_of_int (sint (BucketSize opts))\<rfloor>
                 * sint (BucketSize opts))
         \<and> Count b = int (length (filter (\<lambda>q. bucket_key (Timestamp q) (BucketSize opts)
                                                 = BucketTimestamp b) points))"
proof -
  obtain b where b: "b \<in> set (Aggregate points opts)"
      "BucketTimestamp b = bucket_key (Timestamp p) (BucketSize opts)"
      "Count b = int (length (filter (\<lambda>q. bucket_key (Timestamp q) (BucketSize opts)
                                                 = bucket_key (Timestamp p) (BucketSize opts)) points))"
    using Aggregate_has_bucket [OF assms] by blast
  show ?thesis
  proof (intro bexI [of _ b] conjI impI)
    show "sint (BucketTimestamp b)
             = (sint (Timestamp p) sdiv sint (BucketSize opts)) * sint (BucketSize opts)"
      using b(2) sint_bucket_key [OF assms(1)] by simp
    show "sint (BucketTimestamp b)
             = \<lfloor>real_of_int (sint (Timestamp p)) / real_of_int (sint (BucketSize opts))\<rfloor>
                 * sint (BucketSize opts)" if "0 \<le>s Timestamp p"
      using b(2) sint_bucket_key_floor [OF assms(1) that] by (simp only:)
    show "Count b = int (length (filter (\<lambda>q. bucket_key (Timestamp q) (BucketSize opts)
                                                 = BucketTimestamp b) points))"
      using b(2,3) by simp
  qed (rule b(1))
qed


theorem Aggregate_bucket_key_witness:
  "0 <s BucketSize \<lparr>Func = AggSum, BucketSize = 1000\<rparr>
   \<and> \<lparr>Timestamp = 2500, Value = 1 :: real\<rparr>
        \<in> set [\<lparr>Timestamp = 2500, Value = 1\<rparr>, \<lparr>Timestamp = - 1, Value = 2\<rparr>]
   \<and> (\<exists>b \<in> set (Aggregate [\<lparr>Timestamp = 2500, Value = 1\<rparr>, \<lparr>Timestamp = - 1, Value = 2\<rparr>]
                      \<lparr>Func = AggSum, BucketSize = 1000\<rparr>).
           sint (BucketTimestamp b)
             = (sint (Timestamp \<lparr>Timestamp = 2500, Value = 1 :: real\<rparr>)
                  sdiv sint (BucketSize \<lparr>Func = AggSum, BucketSize = 1000\<rparr>))
                 * sint (BucketSize \<lparr>Func = AggSum, BucketSize = 1000\<rparr>)
         \<and> (0 \<le>s Timestamp \<lparr>Timestamp = 2500, Value = 1 :: real\<rparr> \<longrightarrow> sint (BucketTimestamp b)
             = \<lfloor>real_of_int (sint (Timestamp \<lparr>Timestamp = 2500, Value = 1 :: real\<rparr>))
                  / real_of_int (sint (BucketSize \<lparr>Func = AggSum, BucketSize = 1000\<rparr>))\<rfloor>
                 * sint (BucketSize \<lparr>Func = AggSum, BucketSize = 1000\<rparr>))
         \<and> Count b = int (length (filter (\<lambda>q. bucket_key (Timestamp q)
                                            (BucketSize \<lparr>Func = AggSum, BucketSize = 1000\<rparr>)
                                                 = BucketTimestamp b)
                                    [\<lparr>Timestamp = 2500, Value = 1 :: real\<rparr>, \<lparr>Timestamp = - 1, Value = 2\<rparr>])))"
proof -
  let ?opts = "\<lparr>Func = AggSum, BucketSize = 1000\<rparr>"
  let ?p = "\<lparr>Timestamp = 2500 :: int64, Value = 1 :: real\<rparr>"
  let ?points = "[?p, \<lparr>Timestamp = - 1, Value = 2\<rparr>]"
  have h1: "0 <s BucketSize ?opts" by (simp add: word_sless_alt)
  have h2: "?p \<in> set ?points" by simp
  show ?thesis
    by (intro conjI h1 h2 Aggregate_bucket_key [OF h1 h2])
qed

text \<open>
  For the timestamp \<open>-1\<close> and bucket size \<open>1000\<close> the point lands in bucket \<open>0\<close>, while
  \<open>floor(-1 / 1000) * 1000 = -1000\<close>.
\<close>

theorem Aggregate_bucket_key_truncates:
  "Aggregate [\<lparr>Timestamp = - 1, Value = 1\<rparr>] \<lparr>Func = AggSum, BucketSize = 1000\<rparr>
     = [\<lparr>BucketTimestamp = 0, BucketValue = 1, Count = 1\<rparr>]
   \<and> \<lfloor>real_of_int (sint (- 1 :: int64)) / real_of_int (sint (1000 :: int64))\<rfloor>
        * sint (1000 :: int64) = - 1000"
proof -
  have k: "bucket_key (- 1) 1000 = 0"
    by (simp add: bucket_key_def int64_div_def signed_divide_int_def)
  have "\<lfloor>(- 1 :: real) / 1000\<rfloor> = - 1" by (simp add: floor_eq_iff)
  then show ?thesis
    by (simp add: Aggregate_def k bucket_add_def add_def new_accumulator_def compute_def
      sortBuckets_def AggSum_def AggAvg_def Let_def word_sle_eq)
qed

section \<open>Aggregation: the scenario of the tests\<close>



section \<open>Per-series range read: bounds, limit and order\<close>
















lemma EncodeDataKey_make:
  "EncodeDataKey (make_bytes DataKeySize) sid ts
     = Some (PrefixData # PutUint64 sid @ PutUint64 (NOT ts), 17)"
  by (simp add: EncodeDataKey_def make_bytes_def DataKeySize_def SeriesIDSize_def TimestampSize_def)




lemma set_txn_Set: "x \<in> set (txn_Set kv key vl) \<Longrightarrow> x = (key, vl) \<or> x \<in> set kv"
  by (induction kv) (auto split: if_splits)

lemma keys_txn_Set: "set (map fst (txn_Set kv key vl)) = insert key (set (map fst kv))"
proof (induction kv)
  case Nil
  show ?case by simp
next
  case (Cons a kv)
  obtain k v where a: "a = (k, v)" by (cases a)
  consider "key < k" | "\<not> key < k" "key = k" | "\<not> key < k" "key \<noteq> k" by blast
  then show ?case
  proof cases
    case 1
    then show ?thesis by (simp add: a)
  next
    case 2
    then show ?thesis by (simp add: a)
  next
    case 3
    then show ?thesis using Cons.IH by (simp add: a insert_commute)
  qed
qed

lemma sorted_txn_Set:
  "sorted_wrt (<) (map fst kv) \<Longrightarrow> sorted_wrt (<) (map fst (txn_Set kv key vl))"
proof (induction kv)
  case Nil
  then show ?case by simp
next
  case (Cons a kv)
  obtain k v where a: "a = (k, v)" by (cases a)
  show ?case
  proof (cases "key < k")
    case True
    with Cons.prems a show ?thesis by auto
  next
    case False
    show ?thesis
    proof (cases "key = k")
      case True
      with Cons.prems a show ?thesis by simp
    next
      case ne: False
      with False have "k < key" by simp
      moreover have "\<forall>x \<in> set (map fst (txn_Set kv key vl)). k < x"
        using Cons.prems a \<open>k < key\<close> unfolding keys_txn_Set by auto
      ultimately show ?thesis using Cons a False ne by auto
    qed
  qed
qed

lemma is_data_key_encoded: "is_data_key (PrefixData # PutUint64 sid @ PutUint64 (NOT ts))"
proof -
  let ?k = "PrefixData # PutUint64 sid @ PutUint64 (NOT ts)"
  have "DecodeDataKey ?k = Some (sid, ts)"
    by (simp add: DecodeDataKey_def length_PutUint64 DataKeySize_def SeriesIDSize_def
        TimestampSize_def Uint64_PutUint64)
  then show ?thesis by (simp add: is_data_key_def)
qed

lemma store_wf_WriteRaw:
  assumes "store_wf kv"
  shows "\<exists>kv'. WriteRaw Float64bits kv sid value ts = Some kv' \<and> store_wf kv'"
proof -
  let ?k = "PrefixData # PutUint64 sid @ PutUint64 (NOT ts)"
  let ?v = "PutUint64 (Float64bits value)"
  have w: "WriteRaw Float64bits kv sid value ts = Some (txn_Set kv ?k ?v)"
    unfolding WriteRaw_def EncodeDataKey_make
    by (simp add: EncodeDataValue_def make_bytes_def)
  have "sorted_wrt (<) (map fst (txn_Set kv ?k ?v))"
    using assms by (simp add: store_wf_def sorted_txn_Set)
  moreover have "list_all (\<lambda>(k, v). prefix [PrefixData] k \<longrightarrow> is_data_key k \<and> length v = 8)
                   (txn_Set kv ?k ?v)"
    unfolding list_all_iff
  proof
    fix x assume "x \<in> set (txn_Set kv ?k ?v)"
    then have "x = (?k, ?v) \<or> x \<in> set kv" by (rule set_txn_Set)
    then show "case x of (k, v) \<Rightarrow> prefix [PrefixData] k \<longrightarrow> is_data_key k \<and> length v = 8"
    proof
      assume "x = (?k, ?v)"
      then show ?thesis by (simp add: is_data_key_encoded length_PutUint64)
    next
      assume "x \<in> set kv"
      with assms show ?thesis by (simp add: store_wf_def list_all_iff)
    qed
  qed
  ultimately show ?thesis using w by (simp add: store_wf_def)
qed

lemma example_store_written:
  "Option.bind (Option.bind (WriteRaw id [] 7 1 1000) (\<lambda>kv. WriteRaw id kv 7 3 3000))
     (\<lambda>kv. WriteRaw id kv 7 2 2000) = Some example_store"
  by code_simp





section \<open>Intersect and Union\<close>

lemma and_each_fresh:
  assumes "\<forall>bm \<in> set bms. bm < length h"
  shows "and_each (h @ [X]) (length h) bms = Some (h @ [X \<inter> (\<Inter>bm \<in> set bms. h ! bm)])"
  using assms
proof (induction bms arbitrary: X)
  case Nil
  show ?case by simp
next
  case (Cons bm bms)
  then have bm: "bm < length h" by simp
  have "And (h @ [X]) (length h) bm = Some (h @ [X \<inter> h ! bm])"
    using bm by (simp add: And_def nth_append)
  moreover have "and_each (h @ [X \<inter> h ! bm]) (length h) bms
                 = Some (h @ [X \<inter> h ! bm \<inter> (\<Inter>bm \<in> set bms. h ! bm)])"
    using Cons by simp
  ultimately show ?case by (simp add: Int_ac)
qed

lemma or_each_fresh:
  assumes "\<forall>bm \<in> set bms. bm < length h"
  shows "or_each (h @ [X]) (length h) bms = Some (h @ [X \<union> (\<Union>bm \<in> set bms. h ! bm)])"
  using assms
proof (induction bms arbitrary: X)
  case Nil
  show ?case by simp
next
  case (Cons bm bms)
  then have bm: "bm < length h" by simp
  have "Or (h @ [X]) (length h) bm = Some (h @ [X \<union> h ! bm])"
    using bm by (simp add: Or_def nth_append)
  moreover have "or_each (h @ [X \<union> h ! bm]) (length h) bms
                 = Some (h @ [X \<union> h ! bm \<union> (\<Union>bm \<in> set bms. h ! bm)])"
    using Cons by simp
  ultimately show ?case by (simp add: Un_ac)
qed

lemma Intersect_nonempty:
  assumes "bitmaps \<noteq> []" "\<forall>bm \<in> set bitmaps. bm < length h"
  shows "Intersect h bitmaps = Some (h @ [(\<Inter>bm \<in> set bitmaps. h ! bm)], length h)"
proof -
  obtain b bs where bs: "bitmaps = b # bs" using assms(1) by (cases bitmaps) auto
  with assms(2) have b: "b < length h" and rest: "\<forall>bm \<in> set bs. bm < length h" by simp_all
  show ?thesis
  proof (cases bs)
    case Nil
    with bs b show ?thesis by (simp add: Intersect_def Clone_def)
  next
    case (Cons c cs)
    with bs b and_each_fresh [OF rest, of "h ! b"] show ?thesis
      by (simp add: Intersect_def Clone_def)
  qed
qed

lemma Union_nonempty:
  assumes "bitmaps \<noteq> []" "\<forall>bm \<in> set bitmaps. bm < length h"
  shows "Union h bitmaps = Some (h @ [(\<Union>bm \<in> set bitmaps. h ! bm)], length h)"
proof -
  obtain b bs where bs: "bitmaps = b # bs" using assms(1) by (cases bitmaps) auto
  with assms(2) have b: "b < length h" and rest: "\<forall>bm \<in> set bs. bm < length h" by simp_all
  show ?thesis
  proof (cases bs)
    case Nil
    with bs b show ?thesis by (simp add: Union_def Clone_def)
  next
    case (Cons c cs)
    with bs b or_each_fresh [OF rest, of "h ! b"] show ?thesis
      by (simp add: Union_def Clone_def)
  qed
qed


text \<open>
  C7. With no argument \<open>Intersect\<close> and \<open>Union\<close> return a fresh empty bitmap, with one
  argument a clone of it. With two arguments the results are the intersection and the
  union, the same for both orders of the arguments (commutativity), and nesting the
  calls to the left or to the right gives the same bitmap (associativity). In every
  case the heap after the call is the heap before it with the result appended: no input
  bitmap, and no other bitmap, is changed.
\<close>

theorem Intersect_Union_laws:
  assumes "a < length h" "b < length h" "c < length h"
  shows "Intersect h [] = Some (h @ [{}], length h)
       \<and> Union h [] = Some (h @ [{}], length h)
       \<and> Intersect h [a] = Some (h @ [h ! a], length h)
       \<and> Union h [a] = Some (h @ [h ! a], length h)
       \<and> (\<exists>x. Intersect h [a, b] = Some (h @ [x], length h)
              \<and> Intersect h [b, a] = Some (h @ [x], length h)
              \<and> x = h ! a \<inter> h ! b)
       \<and> (\<exists>x. Union h [a, b] = Some (h @ [x], length h)
              \<and> Union h [b, a] = Some (h @ [x], length h)
              \<and> x = h ! a \<union> h ! b)
       \<and> (\<exists>x y z. Intersect h [a, b] = Some (h @ [x], length h)
              \<and> Intersect (h @ [x]) [length h, c] = Some (h @ [x, z], Suc (length h))
              \<and> Intersect h [b, c] = Some (h @ [y], length h)
              \<and> Intersect (h @ [y]) [a, length h] = Some (h @ [y, z], Suc (length h)))
       \<and> (\<exists>x y z. Union h [a, b] = Some (h @ [x], length h)
              \<and> Union (h @ [x]) [length h, c] = Some (h @ [x, z], Suc (length h))
              \<and> Union h [b, c] = Some (h @ [y], length h)
              \<and> Union (h @ [y]) [a, length h] = Some (h @ [y, z], Suc (length h)))"
proof -
  have e: "Intersect h [] = Some (h @ [{}], length h)" "Union h [] = Some (h @ [{}], length h)"
    by (simp_all add: Intersect_def Union_def roaring_New_def)
  have s: "Intersect h [a] = Some (h @ [h ! a], length h)" "Union h [a] = Some (h @ [h ! a], length h)"
    using assms(1) by (simp_all add: Intersect_nonempty Union_nonempty)
  have i2: "Intersect h [a, b] = Some (h @ [h ! a \<inter> h ! b], length h)"
           "Intersect h [b, a] = Some (h @ [h ! a \<inter> h ! b], length h)"
           "Intersect h [b, c] = Some (h @ [h ! b \<inter> h ! c], length h)"
    using assms by (simp_all add: Intersect_nonempty Int_ac)
  have u2: "Union h [a, b] = Some (h @ [h ! a \<union> h ! b], length h)"
           "Union h [b, a] = Some (h @ [h ! a \<union> h ! b], length h)"
           "Union h [b, c] = Some (h @ [h ! b \<union> h ! c], length h)"
    using assms by (simp_all add: Union_nonempty Un_ac)
  have i3: "Intersect (h @ [h ! a \<inter> h ! b]) [length h, c]
              = Some (h @ [h ! a \<inter> h ! b, h ! a \<inter> h ! b \<inter> h ! c], Suc (length h))"
           "Intersect (h @ [h ! b \<inter> h ! c]) [a, length h]
              = Some (h @ [h ! b \<inter> h ! c, h ! a \<inter> h ! b \<inter> h ! c], Suc (length h))"
    using assms by (simp_all add: Intersect_nonempty nth_append Int_ac)
  have u3: "Union (h @ [h ! a \<union> h ! b]) [length h, c]
              = Some (h @ [h ! a \<union> h ! b, h ! a \<union> h ! b \<union> h ! c], Suc (length h))"
           "Union (h @ [h ! b \<union> h ! c]) [a, length h]
              = Some (h @ [h ! b \<union> h ! c, h ! a \<union> h ! b \<union> h ! c], Suc (length h))"
    using assms by (simp_all add: Union_nonempty nth_append Un_ac)
  show ?thesis
    using e s i2 u2 i3 u3 by (intro conjI exI) (assumption | rule refl)+
qed

theorem Intersect_Union_laws_witness:
  "(0 :: nat) < length [{1, 2, 3}, {2, 3, 4}, {3, 4, 5 :: uint64}]
   \<and> (1 :: nat) < length [{1, 2, 3}, {2, 3, 4}, {3, 4, 5 :: uint64}]
   \<and> (2 :: nat) < length [{1, 2, 3}, {2, 3, 4}, {3, 4, 5 :: uint64}]
   \<and> Intersect [{1, 2, 3}, {2, 3, 4}, {3, 4, 5 :: uint64}] [0]
        = Some ([{1, 2, 3}, {2, 3, 4}, {3, 4, 5}, {1, 2, 3}], 3)
   \<and> (\<exists>x. Intersect [{1, 2, 3}, {2, 3, 4}, {3, 4, 5 :: uint64}] [0, 1]
              = Some ([{1, 2, 3}, {2, 3, 4}, {3, 4, 5}, x], 3)
          \<and> Intersect [{1, 2, 3}, {2, 3, 4}, {3, 4, 5 :: uint64}] [1, 0]
              = Some ([{1, 2, 3}, {2, 3, 4}, {3, 4, 5}, x], 3)
          \<and> x = {2, 3})
   \<and> (\<exists>x. Union [{1, 2, 3}, {2, 3, 4}, {3, 4, 5 :: uint64}] [0, 1]
              = Some ([{1, 2, 3}, {2, 3, 4}, {3, 4, 5}, x], 3)
          \<and> Union [{1, 2, 3}, {2, 3, 4}, {3, 4, 5 :: uint64}] [1, 0]
              = Some ([{1, 2, 3}, {2, 3, 4}, {3, 4, 5}, x], 3)
          \<and> x = {1, 2, 3, 4})"
  using Intersect_Union_laws [of 0 "[{1, 2, 3}, {2, 3, 4}, {3, 4, 5 :: uint64}]" 1 2]
  by auto


section \<open>Tag index lookups\<close>

text \<open>
  C9. With an empty tag key the posting key is the bare metric, so \<open>GetSeriesIDs\<close> is
  \<open>GetAllSeriesIDs\<close>: the same result, the same bitmap reference and the same state
  after the call, whatever the tag value.
\<close>

theorem GetSeriesIDs_empty_tag_key:
  "GetSeriesIDs ReadFrom h d metric [] tagValue = GetAllSeriesIDs ReadFrom h d metric"
  by (simp add: GetSeriesIDs_def GetAllSeriesIDs_def formatTagKey_def)


section \<open>Series registration\<close>

lemma EncodeSeriesKey_make:
  "EncodeSeriesKey (make_bytes SeriesKeySize) sid = Some (PrefixSeries # PutUint64 sid, 9)"
  by (simp add: EncodeSeriesKey_def make_bytes_def SeriesKeySize_def SeriesIDSize_def)

text \<open>
  The id hashes the concatenation of metric, keys and values without separators, so two
  different tag sets can give the same bytes, whatever the hash function.
\<close>

lemma ComputeSeriesID_collision:
  "ComputeSeriesID Sum64 ''cpu'' [\<lparr>TagKey = ''a'', TagValue = ''bc''\<rparr>]
   = ComputeSeriesID Sum64 ''cpu'' [\<lparr>TagKey = ''ab'', TagValue = ''c''\<rparr>]"
  by (simp add: ComputeSeriesID_def)


lemma map_of_txn_Set: "map_of (txn_Set kv key vl) = (map_of kv)(key \<mapsto> vl)"
  by (induction kv) (auto simp: fun_eq_iff)

lemma txn_Get_txn_Set: "txn_Get (txn_Set kv key vl) key = Some vl"
  by (simp add: txn_Get_def map_of_txn_Set)

lemma GetOrCreate_known:
  assumes "ComputeSeriesID Sum64 metric (Sort tags) \<in> series_cache d
           \<or> txn_Get (db d) (PrefixSeries # PutUint64 (ComputeSeriesID Sum64 metric (Sort tags))) \<noteq> None"
  shows "\<exists>d'. GetOrCreate Sum64 json_Marshal d metric tags
                = (d', Sort tags, ComputeSeriesID Sum64 metric (Sort tags), False, None)
              \<and> db d' = db d"
  using assms
  by (auto simp: GetOrCreate_def Let_def EncodeSeriesKey_make split: option.splits sum.splits)

lemma GetOrCreate_not_created:
  assumes "GetOrCreate Sum64 json_Marshal d metric tags = (d', tags', sid, False, err)"
  shows "db d' = db d"
  using assms
  by (auto simp: GetOrCreate_def Let_def EncodeSeriesKey_make split: option.splits sum.splits if_splits)

text \<open>
  C6, as the code has it. When the series id of \<open>(metric, tags)\<close> is neither cached nor
  stored and the metadata marshals, \<open>GetOrCreate\<close> writes the record under the series key
  and returns \<open>created = true\<close>; a second call with the same metric and the same
  canonical tag set returns the same id with \<open>created = false\<close> and changes nothing; and
  so does a call in any state where the id is cached or its record is stored, the store
  staying as it is.
\<close>

theorem GetOrCreate_registers_once:
  assumes "ComputeSeriesID Sum64 metric (Sort tags) \<notin> series_cache d"
      and "txn_Get (db d) (PrefixSeries # PutUint64 (ComputeSeriesID Sum64 metric (Sort tags))) = None"
      and "json_Marshal \<lparr>Metric = metric, Tags = Sort tags\<rparr> = Inr value"
      and "Sort tags' = Sort tags"
  shows "\<exists>d1. GetOrCreate Sum64 json_Marshal d metric tags
                 = (d1, Sort tags, ComputeSeriesID Sum64 metric (Sort tags), True, None)
            \<and> db d1 = txn_Set (db d) (PrefixSeries # PutUint64 (ComputeSeriesID Sum64 metric (Sort tags))) value
            \<and> txn_Get (db d1) (PrefixSeries # PutUint64 (ComputeSeriesID Sum64 metric (Sort tags))) = Some value
            \<and> GetOrCreate Sum64 json_Marshal d1 metric tags'
                 = (d1, Sort tags, ComputeSeriesID Sum64 metric (Sort tags), False, None)
            \<and> (\<forall>d2. ComputeSeriesID Sum64 metric (Sort tags) \<in> series_cache d2
                      \<or> txn_Get (db d2) (PrefixSeries # PutUint64 (ComputeSeriesID Sum64 metric (Sort tags))) \<noteq> None
                  \<longrightarrow> (\<exists>d3. GetOrCreate Sum64 json_Marshal d2 metric tags'
                              = (d3, Sort tags, ComputeSeriesID Sum64 metric (Sort tags), False, None)
                            \<and> db d3 = db d2))"
proof -
  let ?sid = "ComputeSeriesID Sum64 metric (Sort tags)"
  let ?key = "PrefixSeries # PutUint64 ?sid"
  let ?d1 = "d\<lparr>db := txn_Set (db d) ?key value, series_cache := insert ?sid (series_cache d)\<rparr>"
  have first: "GetOrCreate Sum64 json_Marshal d metric tags = (?d1, Sort tags, ?sid, True, None)"
    using assms(1,2,3) by (simp add: GetOrCreate_def Let_def EncodeSeriesKey_make)
  have again: "GetOrCreate Sum64 json_Marshal ?d1 metric tags' = (?d1, Sort tags, ?sid, False, None)"
    using assms(4) by (simp add: GetOrCreate_def Let_def)
  have later: "\<exists>d3. GetOrCreate Sum64 json_Marshal d2 metric tags' = (d3, Sort tags, ?sid, False, None)
                   \<and> db d3 = db d2"
    if "?sid \<in> series_cache d2 \<or> txn_Get (db d2) ?key \<noteq> None" for d2
    using GetOrCreate_known [of Sum64 metric tags' d2 json_Marshal] that assms(4) by simp
  show ?thesis
    using first again later by (intro exI [of _ ?d1]) (simp add: txn_Get_txn_Set)
qed


lemma example_Sum64_cpuabc: "example_Sum64 ''cpuabc'' = 0x637075616263"
  by (simp add: example_Sum64_def bytes_of_def)

lemma bytes_of_cpu: "bytes_of ''cpu'' = [0x63, 0x70, 0x75]"
  by (simp add: bytes_of_def)

lemma PutUint64_cpuabc: "PutUint64 0x637075616263 = [0, 0, 0x63, 0x70, 0x75, 0x61, 0x62, 0x63]"
  by (simp add: PutUint64_def)

lemma Sort_example:
  "Sort [\<lparr>TagKey = ''host'', TagValue = ''h1''\<rparr>, \<lparr>TagKey = ''env'', TagValue = ''prod''\<rparr>]
   = [\<lparr>TagKey = ''env'', TagValue = ''prod''\<rparr>, \<lparr>TagKey = ''host'', TagValue = ''h1''\<rparr>]"
  "Sort [\<lparr>TagKey = ''env'', TagValue = ''prod''\<rparr>, \<lparr>TagKey = ''host'', TagValue = ''h1''\<rparr>]
   = [\<lparr>TagKey = ''env'', TagValue = ''prod''\<rparr>, \<lparr>TagKey = ''host'', TagValue = ''h1''\<rparr>]"
  by (simp_all add: Sort_def less_eq_char_def)

theorem GetOrCreate_registers_once_witness:
  "ComputeSeriesID example_Sum64 ''cpu''
       (Sort [\<lparr>TagKey = ''host'', TagValue = ''h1''\<rparr>, \<lparr>TagKey = ''env'', TagValue = ''prod''\<rparr>])
     \<notin> series_cache empty_Database
   \<and> Sort [\<lparr>TagKey = ''env'', TagValue = ''prod''\<rparr>, \<lparr>TagKey = ''host'', TagValue = ''h1''\<rparr>]
     = Sort [\<lparr>TagKey = ''host'', TagValue = ''h1''\<rparr>, \<lparr>TagKey = ''env'', TagValue = ''prod''\<rparr>]
   \<and> (\<exists>d1 sid. GetOrCreate example_Sum64 example_Marshal empty_Database ''cpu''
                  [\<lparr>TagKey = ''host'', TagValue = ''h1''\<rparr>, \<lparr>TagKey = ''env'', TagValue = ''prod''\<rparr>]
                = (d1, [\<lparr>TagKey = ''env'', TagValue = ''prod''\<rparr>, \<lparr>TagKey = ''host'', TagValue = ''h1''\<rparr>],
                   sid, True, None)
          \<and> txn_Get (db d1) (PrefixSeries # PutUint64 sid) = Some [0x63, 0x70, 0x75]
          \<and> GetOrCreate example_Sum64 example_Marshal d1 ''cpu''
                  [\<lparr>TagKey = ''env'', TagValue = ''prod''\<rparr>, \<lparr>TagKey = ''host'', TagValue = ''h1''\<rparr>]
                = (d1, [\<lparr>TagKey = ''env'', TagValue = ''prod''\<rparr>, \<lparr>TagKey = ''host'', TagValue = ''h1''\<rparr>],
                   sid, False, None))"
proof -
  let ?A = "[\<lparr>TagKey = ''host'', TagValue = ''h1''\<rparr>, \<lparr>TagKey = ''env'', TagValue = ''prod''\<rparr>]"
  let ?B = "[\<lparr>TagKey = ''env'', TagValue = ''prod''\<rparr>, \<lparr>TagKey = ''host'', TagValue = ''h1''\<rparr>]"
  let ?sid = "ComputeSeriesID example_Sum64 ''cpu'' (Sort ?A)"
  have h1: "?sid \<notin> series_cache empty_Database"
    by (simp add: empty_Database_def)
  have h2: "txn_Get (db empty_Database) (PrefixSeries # PutUint64 ?sid) = None"
    by (simp add: empty_Database_def txn_Get_def)
  have h3: "example_Marshal \<lparr>Metric = ''cpu'', Tags = Sort ?A\<rparr> = Inr [0x63, 0x70, 0x75]"
    by (simp add: example_Marshal_def bytes_of_cpu)
  have h4: "Sort ?B = Sort ?A"
    by (simp only: Sort_example)
  show ?thesis
    using h1 h4
      GetOrCreate_registers_once [of example_Sum64 "''cpu''" ?A empty_Database example_Marshal
        "[0x63, 0x70, 0x75]" ?B, OF h1 h2 h3 h4]
    by (auto simp: Sort_example)
qed

text \<open>
  Registration goes by the id alone. After \<open>("cpu", {a: bc})\<close> is registered, the first
  \<open>GetOrCreate\<close> of \<open>("cpu", {ab: c})\<close> finds the same id (both hash the bytes
  \<open>cpuabc\<close>), returns \<open>created = false\<close> and writes no record.
\<close>

theorem GetOrCreate_colliding_series:
  "GetOrCreate example_Sum64 example_Marshal empty_Database ''cpu'' [\<lparr>TagKey = ''a'', TagValue = ''bc''\<rparr>]
     = (\<lparr>db = [([0x73, 0, 0, 0x63, 0x70, 0x75, 0x61, 0x62, 0x63], [0x63, 0x70, 0x75])],
         series_cache = {0x637075616263}, index_cache = Map.empty\<rparr>,
        [\<lparr>TagKey = ''a'', TagValue = ''bc''\<rparr>], 0x637075616263, True, None)
   \<and> GetOrCreate example_Sum64 example_Marshal
        \<lparr>db = [([0x73, 0, 0, 0x63, 0x70, 0x75, 0x61, 0x62, 0x63], [0x63, 0x70, 0x75])],
         series_cache = {0x637075616263}, index_cache = Map.empty\<rparr>
        ''cpu'' [\<lparr>TagKey = ''ab'', TagValue = ''c''\<rparr>]
     = (\<lparr>db = [([0x73, 0, 0, 0x63, 0x70, 0x75, 0x61, 0x62, 0x63], [0x63, 0x70, 0x75])],
         series_cache = {0x637075616263}, index_cache = Map.empty\<rparr>,
        [\<lparr>TagKey = ''ab'', TagValue = ''c''\<rparr>], 0x637075616263, False, None)"
  by (simp add: GetOrCreate_def Let_def Sort_def ComputeSeriesID_def example_Sum64_cpuabc
      EncodeSeriesKey_make empty_Database_def txn_Get_def example_Marshal_def bytes_of_cpu
      PutUint64_cpuabc PrefixSeries_def)


section \<open>The lexer as a function of the remaining input\<close>

lemma skipWhitespace_eq:
  "pos l \<le> length (input l) \<Longrightarrow>
     skipWhitespace l = l\<lparr>pos := pos l + length (takeWhile IsSpace (drop (pos l) (input l)))\<rparr>"
proof (induction l rule: skipWhitespace.induct)
  case (1 l)
  show ?case
  proof (cases "pos l < length (input l) \<and> IsSpace (input l ! pos l)")
    case True
    then have d: "drop (pos l) (input l) = input l ! pos l # drop (Suc (pos l)) (input l)"
      by (simp add: Cons_nth_drop_Suc)
    have "skipWhitespace l = skipWhitespace (l\<lparr>pos := pos l + 1\<rparr>)"
      using True by (subst skipWhitespace.simps) simp
    also have "\<dots> = l\<lparr>pos := pos l + 1 + length (takeWhile IsSpace (drop (pos l + 1) (input l)))\<rparr>"
      using "1.IH" [OF True] True by simp
    finally show ?thesis using True d by simp
  next
    case False
    have s: "skipWhitespace l = l" using False by (subst skipWhitespace.simps) auto
    show ?thesis
    proof (cases "pos l < length (input l)")
      case True
      with False have "\<not> IsSpace (input l ! pos l)" by simp
      moreover have "drop (pos l) (input l) = input l ! pos l # drop (Suc (pos l)) (input l)"
        using True by (simp add: Cons_nth_drop_Suc)
      ultimately show ?thesis using s by simp
    next
      case False
      then show ?thesis using s by simp
    qed
  qed
qed

lemma scanIdentLoop_eq:
  "pos l \<le> length (input l) \<Longrightarrow>
     scanIdentLoop l = l\<lparr>pos := pos l + length (takeWhile isIdentChar (drop (pos l) (input l)))\<rparr>"
proof (induction l rule: scanIdentLoop.induct)
  case (1 l)
  show ?case
  proof (cases "pos l < length (input l) \<and> isIdentChar (input l ! pos l)")
    case True
    then have d: "drop (pos l) (input l) = input l ! pos l # drop (Suc (pos l)) (input l)"
      by (simp add: Cons_nth_drop_Suc)
    have "scanIdentLoop l = scanIdentLoop (l\<lparr>pos := pos l + 1\<rparr>)"
      using True by (subst scanIdentLoop.simps) simp
    also have "\<dots> = l\<lparr>pos := pos l + 1 + length (takeWhile isIdentChar (drop (pos l + 1) (input l)))\<rparr>"
      using "1.IH" [OF True] True by simp
    finally show ?thesis using True d by simp
  next
    case False
    have s: "scanIdentLoop l = l" using False by (subst scanIdentLoop.simps) auto
    show ?thesis
    proof (cases "pos l < length (input l)")
      case True
      with False have "\<not> isIdentChar (input l ! pos l)" by simp
      moreover have "drop (pos l) (input l) = input l ! pos l # drop (Suc (pos l)) (input l)"
        using True by (simp add: Cons_nth_drop_Suc)
      ultimately show ?thesis using s by simp
    next
      case False
      then show ?thesis using s by simp
    qed
  qed
qed

lemma scanIdent_eq:
  assumes "pos l \<le> length (input l)"
  shows "scanIdent l =
           (classify (takeWhile isIdentChar (drop (pos l) (input l))),
            l\<lparr>pos := pos l + length (takeWhile isIdentChar (drop (pos l) (input l)))\<rparr>)"
proof -
  let ?v = "takeWhile isIdentChar (drop (pos l) (input l))"
  have "take (length ?v) (drop (pos l) (input l)) = ?v"
    by (metis takeWhile_eq_take)
  then show ?thesis
    by (simp add: scanIdent_def scanIdentLoop_eq [OF assms] classify_def Let_def)
qed

lemma lexer_next_eq:
  assumes "pos l \<le> length (input l)"
  shows "lexer_next l =
           (fst (lex_suffix (drop (pos l) (input l))),
            l\<lparr>pos := pos l + snd (lex_suffix (drop (pos l) (input l)))\<rparr>)"
proof -
  let ?s = "drop (pos l) (input l)"
  let ?n = "length (takeWhile IsSpace ?s)"
  let ?l = "l\<lparr>pos := pos l + ?n\<rparr>"
  have sk: "skipWhitespace l = ?l" by (rule skipWhitespace_eq [OF assms])
  have le: "pos l + ?n \<le> length (input l)"
    using length_takeWhile_le [of IsSpace ?s] assms by simp
  have dr: "drop (pos l + ?n) (input l) = dropWhile IsSpace ?s"
    by (metis drop_drop add.commute dropWhile_eq_drop)
  show ?thesis
  proof (cases "dropWhile IsSpace ?s")
    case Nil
    from dr have "drop (pos l + ?n) (input l) = []" unfolding Nil .
    then have "pos l + ?n \<ge> length (input l)" by (simp only: drop_eq_Nil)
    then have ln: "lexer_next l = (\<lparr>tok_typ = tokenEOF, tok_val = ''''\<rparr>, ?l)"
      unfolding lexer_next_def Let_def sk by simp
    have ls: "lex_suffix ?s = (\<lparr>tok_typ = tokenEOF, tok_val = ''''\<rparr>, ?n)"
      unfolding lex_suffix_def Let_def Nil by simp
    show ?thesis by (simp add: ln ls)
  next
    case (Cons ch r)
    then have lt: "pos l + ?n < length (input l)" using dr
      by (metis drop_eq_Nil2 list.distinct(1) not_le)
    have ch: "input l ! (pos l + ?n) = ch"
      using Cons dr lt by (metis Cons_nth_drop_Suc list.inject)
    have sc: "scanIdent ?l = (classify (takeWhile isIdentChar (ch # r)),
                 ?l\<lparr>pos := pos ?l + length (takeWhile isIdentChar (ch # r))\<rparr>)"
      using scanIdent_eq [of ?l] le dr Cons by simp
    have ls: "lex_suffix ?s =
       (if ch = CHR '':'' then (\<lparr>tok_typ = tokenColon, tok_val = '':''\<rparr>, ?n + 1)
        else if ch = CHR ''('' then (\<lparr>tok_typ = tokenLParen, tok_val = ''(''\<rparr>, ?n + 1)
        else if ch = CHR '')'' then (\<lparr>tok_typ = tokenRParen, tok_val = '')''\<rparr>, ?n + 1)
        else if isIdentStart ch
          then (classify (takeWhile isIdentChar (ch # r)),
                ?n + length (takeWhile isIdentChar (ch # r)))
        else (\<lparr>tok_typ = tokenEOF, tok_val = ''''\<rparr>, ?n + 1))"
      unfolding lex_suffix_def Let_def Cons by simp
    have ln: "lexer_next l =
       (if ch = CHR '':'' then (\<lparr>tok_typ = tokenColon, tok_val = '':''\<rparr>, ?l\<lparr>pos := pos ?l + 1\<rparr>)
        else if ch = CHR ''('' then (\<lparr>tok_typ = tokenLParen, tok_val = ''(''\<rparr>, ?l\<lparr>pos := pos ?l + 1\<rparr>)
        else if ch = CHR '')'' then (\<lparr>tok_typ = tokenRParen, tok_val = '')''\<rparr>, ?l\<lparr>pos := pos ?l + 1\<rparr>)
        else if isIdentStart ch then scanIdent ?l
        else (\<lparr>tok_typ = tokenEOF, tok_val = ''''\<rparr>, ?l\<lparr>pos := pos ?l + 1\<rparr>))"
      unfolding lexer_next_def Let_def sk using lt ch by simp
    show ?thesis unfolding ln ls sc by (simp add: add.assoc)
  qed
qed

lemma space_not_ident: "IsSpace w \<Longrightarrow> \<not> isIdentChar w"
  by (auto simp: IsSpace_def isIdentChar_def isIdentStart_def less_eq_char_def)

lemma not_identChar_not_identStart: "\<not> isIdentChar c \<Longrightarrow> \<not> isIdentStart c"
  by (simp add: isIdentChar_def)

lemma tok_typ_classify: "tok_typ (classify v) \<noteq> tokenEOF"
  by (simp add: classify_def)

lemma lex_suffix_Nil:
  assumes "dropWhile IsSpace s = []"
  shows "lex_suffix s = (\<lparr>tok_typ = tokenEOF, tok_val = ''''\<rparr>, length (takeWhile IsSpace s))"
  unfolding lex_suffix_def Let_def assms by simp

lemma lex_suffix_Cons:
  assumes "dropWhile IsSpace s = ch # r"
  shows "lex_suffix s =
       (if ch = CHR '':'' then (\<lparr>tok_typ = tokenColon, tok_val = '':''\<rparr>, length (takeWhile IsSpace s) + 1)
        else if ch = CHR ''('' then (\<lparr>tok_typ = tokenLParen, tok_val = ''(''\<rparr>, length (takeWhile IsSpace s) + 1)
        else if ch = CHR '')'' then (\<lparr>tok_typ = tokenRParen, tok_val = '')''\<rparr>, length (takeWhile IsSpace s) + 1)
        else if isIdentStart ch
          then (classify (takeWhile isIdentChar (ch # r)),
                length (takeWhile IsSpace s) + length (takeWhile isIdentChar (ch # r)))
        else (\<lparr>tok_typ = tokenEOF, tok_val = ''''\<rparr>, length (takeWhile IsSpace s) + 1))"
  unfolding lex_suffix_def Let_def assms by simp

lemma lex_suffix_le: "snd (lex_suffix s) \<le> length s"
proof -
  have len: "length (takeWhile IsSpace s) + length (dropWhile IsSpace s) = length s"
    by (metis length_append takeWhile_dropWhile_id)
  show ?thesis
  proof (cases "dropWhile IsSpace s")
    case Nil
    show ?thesis unfolding lex_suffix_Nil [OF Nil] using len by simp
  next
    case (Cons ch r)
    have "length (takeWhile isIdentChar (ch # r)) \<le> length (ch # r)"
      by (rule length_takeWhile_le)
    then show ?thesis unfolding lex_suffix_Cons [OF Cons] using len unfolding Cons by simp
  qed
qed

lemma lex_suffix_progress:
  "tok_typ (fst (lex_suffix s)) \<noteq> tokenEOF \<Longrightarrow> 0 < snd (lex_suffix s)"
proof (cases "dropWhile IsSpace s")
  case Nil
  assume "tok_typ (fst (lex_suffix s)) \<noteq> tokenEOF"
  then show ?thesis unfolding lex_suffix_Nil [OF Nil] by simp
next
  case (Cons ch r)
  assume "tok_typ (fst (lex_suffix s)) \<noteq> tokenEOF"
  then show ?thesis unfolding lex_suffix_Cons [OF Cons]
    by (auto simp: isIdentChar_def split: if_splits)
qed

lemma takeWhile_ident_tail:
  assumes "\<forall>w \<in> set ws. IsSpace w" "\<not> isIdentChar c"
  shows "takeWhile isIdentChar (ws @ c # rest) = []"
  using assms by (cases ws) (auto dest: space_not_ident)

lemma takeWhile_append_stop:
  "takeWhile P ys = [] \<Longrightarrow> takeWhile P (xs @ ys) = takeWhile P xs"
  by (induction xs) auto

lemma lex_suffix_append:
  assumes ws: "\<forall>w \<in> set ws. IsSpace w"
    and c: "\<not> IsSpace c" "\<not> isIdentChar c" "c \<noteq> CHR '':''" "c \<noteq> CHR ''(''" "c \<noteq> CHR '')''"
  shows "fst (lex_suffix (s @ ws @ c # rest)) = fst (lex_suffix s)
       \<and> (tok_typ (fst (lex_suffix s)) \<noteq> tokenEOF
            \<longrightarrow> snd (lex_suffix (s @ ws @ c # rest)) = snd (lex_suffix s))"
proof (cases "dropWhile IsSpace s")
  case Nil
  then have all: "\<forall>x \<in> set s. IsSpace x" by simp
  have d: "dropWhile IsSpace (s @ ws @ c # rest) = c # rest"
    using all ws c(1) by (simp add: dropWhile_append)
  have 1: "fst (lex_suffix (s @ ws @ c # rest)) = \<lparr>tok_typ = tokenEOF, tok_val = ''''\<rparr>"
    unfolding lex_suffix_Cons [OF d] using c not_identChar_not_identStart [OF c(2)] by simp
  have 2: "fst (lex_suffix s) = \<lparr>tok_typ = tokenEOF, tok_val = ''''\<rparr>"
    unfolding lex_suffix_Nil [OF Nil] by simp
  show ?thesis by (simp add: 1 2)
next
  case (Cons ch r)
  then have "s = takeWhile IsSpace s @ ch # r" and ch: "\<not> IsSpace ch"
    by (simp_all add: dropWhile_eq_Cons_conv)
  then have mem: "ch \<in> set s" by (metis in_set_conv_decomp)
  have d: "dropWhile IsSpace (s @ ws @ c # rest) = ch # (r @ ws @ c # rest)"
    using dropWhile_append1 [of ch s IsSpace "ws @ c # rest"] mem ch Cons by simp
  have t: "takeWhile IsSpace (s @ ws @ c # rest) = takeWhile IsSpace s"
    using takeWhile_append1 [of ch s IsSpace "ws @ c # rest"] mem ch by simp
  have i: "takeWhile isIdentChar (ch # (r @ ws @ c # rest)) = takeWhile isIdentChar (ch # r)"
    using takeWhile_append_stop [OF takeWhile_ident_tail [OF ws c(2), of rest], of "ch # r"]
    by simp
  show ?thesis unfolding lex_suffix_Cons [OF d] lex_suffix_Cons [OF Cons] t i by simp
qed

section \<open>A tail that starts with an unrecognised byte changes no token\<close>

lemma advance_eq:
  assumes "parser_wf p"
  shows "cur (advance p) = fst (lex_suffix (drop (pos (lex p)) (input (lex p))))"
    and "lex (advance p) = (lex p)\<lparr>pos := pos (lex p) + snd (lex_suffix (drop (pos (lex p)) (input (lex p))))\<rparr>"
  using lexer_next_eq [of "lex p"] assms by (simp_all add: advance_def parser_wf_def)

lemma advance_wf:
  assumes "parser_wf p"
  shows "parser_wf (advance p)"
    and "tok_typ (cur p) \<noteq> tokenEOF \<Longrightarrow> tokens_left (advance p) < tokens_left p"
proof -
  let ?s = "drop (pos (lex p)) (input (lex p))"
  have le: "snd (lex_suffix ?s) \<le> length (input (lex p)) - pos (lex p)"
    using lex_suffix_le [of ?s] by simp
  show wf: "parser_wf (advance p)"
    using assms le by (simp add: parser_wf_def advance_eq [OF assms])
  show "tokens_left (advance p) < tokens_left p" if "tok_typ (cur p) \<noteq> tokenEOF"
  proof (cases "tok_typ (fst (lex_suffix ?s)) = tokenEOF")
    case True
    then show ?thesis using that assms le
      by (simp add: tokens_left_def advance_eq [OF assms] parser_wf_def)
  next
    case False
    then have "0 < snd (lex_suffix ?s)" by (rule lex_suffix_progress)
    then show ?thesis using that assms le False
      by (simp add: tokens_left_def advance_eq [OF assms] parser_wf_def)
  qed
qed

lemma newParser_eq:
  "cur (newParser s) = fst (lex_suffix s)"
  "lex (newParser s) = \<lparr>input = s, pos = snd (lex_suffix s)\<rparr>"
  using lexer_next_eq [of "newLexer s"] by (simp_all add: newParser_def newLexer_def)

lemma newParser_wf: "parser_wf (newParser s)"
  using lex_suffix_le [of s] by (simp add: parser_wf_def newParser_eq)

lemma tokens_left_newParser: "tokens_left (newParser s) \<le> length s + 1"
  by (auto simp: tokens_left_def newParser_eq)

lemma sim_step:
  assumes tail: "ignored_tail tail" and n: "n \<le> length E"
  shows "fst (lex_suffix (drop n (E @ tail))) = fst (lex_suffix (drop n E))
       \<and> (tok_typ (fst (lex_suffix (drop n E))) \<noteq> tokenEOF
            \<longrightarrow> snd (lex_suffix (drop n (E @ tail))) = snd (lex_suffix (drop n E)))"
proof -
  from tail obtain ws c rest where t: "tail = ws @ c # rest"
    and ws: "\<forall>w \<in> set ws. IsSpace w"
    and c: "\<not> IsSpace c" "\<not> isIdentChar c" "c \<noteq> CHR '':''" "c \<noteq> CHR ''(''" "c \<noteq> CHR '')''"
    unfolding ignored_tail_def by blast
  have "drop n (E @ tail) = drop n E @ ws @ c # rest" using n t by simp
  then show ?thesis using lex_suffix_append [OF ws c, of "drop n E" rest] by simp
qed

lemma sim_advance:
  assumes tail: "ignored_tail tail" and s: "sim E tail p p'" and ne: "tok_typ (cur p) \<noteq> tokenEOF"
  shows "sim E tail (advance p) (advance p')"
proof -
  from s ne have i: "input (lex p) = E" "input (lex p') = E @ tail"
    and ps: "pos (lex p') = pos (lex p)" and le: "pos (lex p) \<le> length E"
    by (simp_all add: sim_def)
  have wf: "parser_wf p" "parser_wf p'" using i ps le by (simp_all add: parser_wf_def)
  let ?n = "pos (lex p)"
  note st = sim_step [OF tail le]
  have c: "cur (advance p') = cur (advance p)"
    using st by (simp add: advance_eq(1) [OF wf(1)] advance_eq(1) [OF wf(2)] i ps)
  show ?thesis
  proof (cases "tok_typ (cur (advance p)) = tokenEOF")
    case True
    then show ?thesis using c by (simp add: sim_def)
  next
    case False
    then have f: "tok_typ (fst (lex_suffix (drop ?n E))) \<noteq> tokenEOF"
      by (simp add: advance_eq(1) [OF wf(1)] i)
    with st have sn: "snd (lex_suffix (drop ?n (E @ tail))) = snd (lex_suffix (drop ?n E))" by simp
    have "?n + snd (lex_suffix (drop ?n E)) \<le> length E"
      using lex_suffix_le [of "drop ?n E"] le by simp
    then show ?thesis using c sn
      by (simp add: sim_def advance_eq(2) [OF wf(1)] advance_eq(2) [OF wf(2)] i ps)
  qed
qed

lemma sim_newParser:
  assumes tail: "ignored_tail tail"
  shows "sim E tail (newParser E) (newParser (E @ tail))"
proof -
  note st = sim_step [OF tail, of 0 E]
  have c: "cur (newParser (E @ tail)) = cur (newParser E)"
    using st by (simp add: newParser_eq)
  show ?thesis
  proof (cases "tok_typ (cur (newParser E)) = tokenEOF")
    case True
    then show ?thesis using c by (simp add: sim_def)
  next
    case False
    then have "tok_typ (fst (lex_suffix E)) \<noteq> tokenEOF" by (simp add: newParser_eq)
    with st have "snd (lex_suffix (E @ tail)) = snd (lex_suffix E)" by simp
    then show ?thesis using c lex_suffix_le [of E]
      by (simp add: sim_def newParser_eq)
  qed
qed

lemma sim_cur: "sim E tail p p' \<Longrightarrow> cur p' = cur p"
  by (simp add: sim_def)

lemma sim_parseTag:
  assumes tail: "ignored_tail tail" and s: "sim E tail p p'"
  shows "fst (parseTag p') = fst (parseTag p) \<and> sim E tail (snd (parseTag p)) (snd (parseTag p'))"
proof (cases "tok_typ (cur p) \<noteq> tokenIdent")
  case True
  then show ?thesis using s sim_cur [OF s] by (simp add: parseTag_def)
next
  case False
  then have id: "tok_typ (cur p) = tokenIdent" by simp
  then have s1: "sim E tail (advance p) (advance p')"
    using sim_advance [OF tail s] by simp
  show ?thesis
  proof (cases "tok_typ (cur (advance p)) \<noteq> tokenColon")
    case True
    then show ?thesis using id s1 sim_cur [OF s] sim_cur [OF s1]
      by (simp add: parseTag_def Let_def)
  next
    case False
    then have col: "tok_typ (cur (advance p)) = tokenColon" by simp
    then have s2: "sim E tail (advance (advance p)) (advance (advance p'))"
      using sim_advance [OF tail s1] by simp
    show ?thesis
    proof (cases "tok_typ (cur (advance (advance p))) \<noteq> tokenIdent")
      case True
      then show ?thesis using id col s2 sim_cur [OF s] sim_cur [OF s1] sim_cur [OF s2]
        by (simp add: parseTag_def Let_def)
    next
      case False
      then have id2: "tok_typ (cur (advance (advance p))) = tokenIdent" by simp
      then have s3: "sim E tail (advance (advance (advance p))) (advance (advance (advance p')))"
        using sim_advance [OF tail s2] by simp
      show ?thesis using id col id2 s3 sim_cur [OF s] sim_cur [OF s1] sim_cur [OF s2]
        by (simp add: parseTag_def Let_def)
    qed
  qed
qed

lemma sim_result_bind:
  assumes "sim_result E tail r r'"
    and "\<And>left q q'. sim E tail q q' \<Longrightarrow> sim_result E tail (k left q) (k' left q')"
  shows "sim_result E tail
           (case r of None \<Rightarrow> None
            | Some (Inl err, p1) \<Rightarrow> Some (Inl err, p1)
            | Some (Inr left, p1) \<Rightarrow> k left p1)
           (case r' of None \<Rightarrow> None
            | Some (Inl err, p1) \<Rightarrow> Some (Inl err, p1)
            | Some (Inr left, p1) \<Rightarrow> k' left p1)"
proof -
  from assms(1) consider "r = None" "r' = None"
    | res q q' where "r = Some (res, q)" "r' = Some (res, q')" "sim E tail q q'"
    unfolding sim_result_def by blast
  then show ?thesis
  proof cases
    case 1
    then show ?thesis by (simp add: sim_result_def)
  next
    case 2
    show ?thesis
    proof (cases res)
      case (Inl err)
      with 2 show ?thesis by (simp add: sim_result_def)
    next
      case (Inr left)
      with 2 assms(2) [OF 2(3), of left] show ?thesis by simp
    qed
  qed
qed

lemma sim_result_Some:
  "sim E tail q q' \<Longrightarrow> sim_result E tail (Some (res, q)) (Some (res, q'))"
  by (simp add: sim_result_def)

lemma sim_parse:
  assumes tail: "ignored_tail tail"
  shows "(\<forall>p p'. sim E tail p p' \<longrightarrow> sim_result E tail (parseExpr n p) (parseExpr n p'))
       \<and> (\<forall>p p' left. sim E tail p p' \<longrightarrow>
              sim_result E tail (parseExprLoop n left p) (parseExprLoop n left p'))
       \<and> (\<forall>p p'. sim E tail p p' \<longrightarrow> sim_result E tail (parseTerm n p) (parseTerm n p'))
       \<and> (\<forall>p p' left. sim E tail p p' \<longrightarrow>
              sim_result E tail (parseTermLoop n left p) (parseTermLoop n left p'))
       \<and> (\<forall>p p'. sim E tail p p' \<longrightarrow> sim_result E tail (parseFactor n p) (parseFactor n p'))"
proof (induction n)
  case 0
  show ?case by (simp add: sim_result_def)
next
  case (Suc n)
  then have IH:
    "\<And>p p'. sim E tail p p' \<Longrightarrow> sim_result E tail (parseExpr n p) (parseExpr n p')"
    "\<And>p p' left. sim E tail p p' \<Longrightarrow> sim_result E tail (parseExprLoop n left p) (parseExprLoop n left p')"
    "\<And>p p'. sim E tail p p' \<Longrightarrow> sim_result E tail (parseTerm n p) (parseTerm n p')"
    "\<And>p p' left. sim E tail p p' \<Longrightarrow> sim_result E tail (parseTermLoop n left p) (parseTermLoop n left p')"
    "\<And>p p'. sim E tail p p' \<Longrightarrow> sim_result E tail (parseFactor n p) (parseFactor n p')"
    by blast+
  have e: "sim_result E tail (parseExpr (Suc n) p) (parseExpr (Suc n) p')" if s: "sim E tail p p'" for p p'
    unfolding parseExpr.simps
    by (rule sim_result_bind [OF IH(3) [OF s]]) (rule IH(2))
  have el: "sim_result E tail (parseExprLoop (Suc n) left p) (parseExprLoop (Suc n) left p')"
    if s: "sim E tail p p'" for p p' left
  proof (cases "tok_typ (cur p) = tokenOr")
    case True
    then have s1: "sim E tail (advance p) (advance p')" using sim_advance [OF tail s] by simp
    show ?thesis unfolding parseExprLoop.simps using True sim_cur [OF s]
      by (simp add: sim_result_bind [OF IH(3) [OF s1]] IH(2))
  next
    case False
    then show ?thesis using s sim_cur [OF s] by (simp add: sim_result_Some)
  qed
  have t: "sim_result E tail (parseTerm (Suc n) p) (parseTerm (Suc n) p')" if s: "sim E tail p p'" for p p'
    unfolding parseTerm.simps
    by (rule sim_result_bind [OF IH(5) [OF s]]) (rule IH(4))
  have tl: "sim_result E tail (parseTermLoop (Suc n) left p) (parseTermLoop (Suc n) left p')"
    if s: "sim E tail p p'" for p p' left
  proof (cases "tok_typ (cur p) = tokenAnd")
    case True
    then have s1: "sim E tail (advance p) (advance p')" using sim_advance [OF tail s] by simp
    show ?thesis unfolding parseTermLoop.simps using True sim_cur [OF s]
      by (simp add: sim_result_bind [OF IH(5) [OF s1]] IH(4))
  next
    case False
    then show ?thesis using s sim_cur [OF s] by (simp add: sim_result_Some)
  qed
  have f: "sim_result E tail (parseFactor (Suc n) p) (parseFactor (Suc n) p')" if s: "sim E tail p p'" for p p'
  proof (cases "tok_typ (cur p) = tokenLParen")
    case True
    then have s1: "sim E tail (advance p) (advance p')" using sim_advance [OF tail s] by simp
    have k: "sim_result E tail
               (if tok_typ (cur q) \<noteq> tokenRParen then Some (Inl (ExpectedRParen (tok_val (cur q))), q)
                else Some (Inr expr, advance q))
               (if tok_typ (cur q') \<noteq> tokenRParen then Some (Inl (ExpectedRParen (tok_val (cur q'))), q')
                else Some (Inr expr, advance q'))"
      if sq: "sim E tail q q'" for expr q q'
    proof (cases "tok_typ (cur q) = tokenRParen")
      case True
      then have "sim E tail (advance q) (advance q')" using sim_advance [OF tail sq] by simp
      then show ?thesis using True sim_cur [OF sq] by (simp add: sim_result_Some)
    next
      case False
      then show ?thesis using sq sim_cur [OF sq] by (simp add: sim_result_Some)
    qed
    show ?thesis unfolding parseFactor.simps using True sim_cur [OF s]
      by (simp add: sim_result_bind [OF IH(1) [OF s1], where k = "\<lambda>expr q. if tok_typ (cur q) \<noteq> tokenRParen then Some (Inl (ExpectedRParen (tok_val (cur q))), q)
                else Some (Inr expr, advance q)"] k)
  next
    case False
    obtain res q where pt: "parseTag p = (res, q)" by (cases "parseTag p")
    obtain res' q' where pt': "parseTag p' = (res', q')" by (cases "parseTag p'")
    from sim_parseTag [OF tail s] pt pt' have "res' = res" "sim E tail q q'" by simp_all
    then show ?thesis using False sim_cur [OF s] pt pt' by (simp add: sim_result_Some)
  qed
  show ?case using e el t tl f by blast
qed

section \<open>More fuel changes no result; blank inputs\<close>

lemma bind_mono:
  assumes "(case r of None \<Rightarrow> None
            | Some (Inl err, p1) \<Rightarrow> Some (Inl err, p1)
            | Some (Inr left, p1) \<Rightarrow> k left p1) = Some x"
    and "\<And>y. r = Some y \<Longrightarrow> r' = Some y"
    and "\<And>left q. k left q = Some x \<Longrightarrow> k' left q = Some x"
  shows "(case r' of None \<Rightarrow> None
            | Some (Inl err, p1) \<Rightarrow> Some (Inl err, p1)
            | Some (Inr left, p1) \<Rightarrow> k' left p1) = Some x"
proof (cases r)
  case None
  with assms(1) show ?thesis by simp
next
  case (Some y)
  then have r': "r' = Some y" by (rule assms(2))
  obtain res q where y: "y = (res, q)" by (cases y)
  show ?thesis
  proof (cases res)
    case (Inl err)
    with assms(1) Some r' y show ?thesis by simp
  next
    case (Inr left)
    with assms(1) Some y have "k left q = Some x" by simp
    then have "k' left q = Some x" by (rule assms(3))
    with r' y Inr show ?thesis by simp
  qed
qed

lemma parse_fuel_Suc:
  "(\<forall>p x. parseExpr n p = Some x \<longrightarrow> parseExpr (Suc n) p = Some x)
   \<and> (\<forall>p left x. parseExprLoop n left p = Some x \<longrightarrow> parseExprLoop (Suc n) left p = Some x)
   \<and> (\<forall>p x. parseTerm n p = Some x \<longrightarrow> parseTerm (Suc n) p = Some x)
   \<and> (\<forall>p left x. parseTermLoop n left p = Some x \<longrightarrow> parseTermLoop (Suc n) left p = Some x)
   \<and> (\<forall>p x. parseFactor n p = Some x \<longrightarrow> parseFactor (Suc n) p = Some x)"
proof (induction n)
  case 0
  show ?case by simp
next
  case (Suc n)
  then have IH:
    "\<And>p x. parseExpr n p = Some x \<Longrightarrow> parseExpr (Suc n) p = Some x"
    "\<And>p left x. parseExprLoop n left p = Some x \<Longrightarrow> parseExprLoop (Suc n) left p = Some x"
    "\<And>p x. parseTerm n p = Some x \<Longrightarrow> parseTerm (Suc n) p = Some x"
    "\<And>p left x. parseTermLoop n left p = Some x \<Longrightarrow> parseTermLoop (Suc n) left p = Some x"
    "\<And>p x. parseFactor n p = Some x \<Longrightarrow> parseFactor (Suc n) p = Some x"
    by blast+
  have e: "parseExpr (Suc (Suc n)) p = Some x" if "parseExpr (Suc n) p = Some x" for p x
  proof -
    from that have "(case parseTerm n p of None \<Rightarrow> None
            | Some (Inl err, p1) \<Rightarrow> Some (Inl err, p1)
            | Some (Inr left, p1) \<Rightarrow> parseExprLoop n left p1) = Some x"
      by simp
    then have "(case parseTerm (Suc n) p of None \<Rightarrow> None
            | Some (Inl err, p1) \<Rightarrow> Some (Inl err, p1)
            | Some (Inr left, p1) \<Rightarrow> parseExprLoop (Suc n) left p1) = Some x"
      by (rule bind_mono) (erule IH(3), erule IH(2))
    then show ?thesis by simp
  qed
  have el: "parseExprLoop (Suc (Suc n)) left p = Some x"
    if "parseExprLoop (Suc n) left p = Some x" for p left x
  proof (cases "tok_typ (cur p) = tokenOr")
    case True
    with that have "(case parseTerm n (advance p) of None \<Rightarrow> None
            | Some (Inl err, p1) \<Rightarrow> Some (Inl err, p1)
            | Some (Inr right, p1) \<Rightarrow> parseExprLoop n (OrFilter left right) p1) = Some x"
      by simp
    then have "(case parseTerm (Suc n) (advance p) of None \<Rightarrow> None
            | Some (Inl err, p1) \<Rightarrow> Some (Inl err, p1)
            | Some (Inr right, p1) \<Rightarrow> parseExprLoop (Suc n) (OrFilter left right) p1) = Some x"
      by (rule bind_mono) (erule IH(3), erule IH(2))
    with True show ?thesis by simp
  next
    case False
    with that show ?thesis by simp
  qed
  have t: "parseTerm (Suc (Suc n)) p = Some x" if "parseTerm (Suc n) p = Some x" for p x
  proof -
    from that have "(case parseFactor n p of None \<Rightarrow> None
            | Some (Inl err, p1) \<Rightarrow> Some (Inl err, p1)
            | Some (Inr left, p1) \<Rightarrow> parseTermLoop n left p1) = Some x"
      by simp
    then have "(case parseFactor (Suc n) p of None \<Rightarrow> None
            | Some (Inl err, p1) \<Rightarrow> Some (Inl err, p1)
            | Some (Inr left, p1) \<Rightarrow> parseTermLoop (Suc n) left p1) = Some x"
      by (rule bind_mono) (erule IH(5), erule IH(4))
    then show ?thesis by simp
  qed
  have tl: "parseTermLoop (Suc (Suc n)) left p = Some x"
    if "parseTermLoop (Suc n) left p = Some x" for p left x
  proof (cases "tok_typ (cur p) = tokenAnd")
    case True
    with that have "(case parseFactor n (advance p) of None \<Rightarrow> None
            | Some (Inl err, p1) \<Rightarrow> Some (Inl err, p1)
            | Some (Inr right, p1) \<Rightarrow> parseTermLoop n (AndFilter left right) p1) = Some x"
      by simp
    then have "(case parseFactor (Suc n) (advance p) of None \<Rightarrow> None
            | Some (Inl err, p1) \<Rightarrow> Some (Inl err, p1)
            | Some (Inr right, p1) \<Rightarrow> parseTermLoop (Suc n) (AndFilter left right) p1) = Some x"
      by (rule bind_mono) (erule IH(5), erule IH(4))
    with True show ?thesis by simp
  next
    case False
    with that show ?thesis by simp
  qed
  have f: "parseFactor (Suc (Suc n)) p = Some x" if "parseFactor (Suc n) p = Some x" for p x
  proof (cases "tok_typ (cur p) = tokenLParen")
    case True
    let ?k = "\<lambda>expr p1. if tok_typ (cur p1) \<noteq> tokenRParen
                then Some (Inl (ExpectedRParen (tok_val (cur p1))), p1)
                else Some (Inr expr, advance p1)"
    from True that have "(case parseExpr n (advance p) of None \<Rightarrow> None
            | Some (Inl err, p1) \<Rightarrow> Some (Inl err, p1)
            | Some (Inr expr, p1) \<Rightarrow> ?k expr p1) = Some x"
      by simp
    then have "(case parseExpr (Suc n) (advance p) of None \<Rightarrow> None
            | Some (Inl err, p1) \<Rightarrow> Some (Inl err, p1)
            | Some (Inr expr, p1) \<Rightarrow> ?k expr p1) = Some x"
      by (rule bind_mono) (erule IH(1), assumption)
    with True show ?thesis by simp
  next
    case False
    with that show ?thesis by simp
  qed
  show ?case using e el t tl f by blast
qed

lemma parseExpr_fuel_mono:
  assumes "parseExpr n p = Some x" "n \<le> m"
  shows "parseExpr m p = Some x"
proof -
  have step: "parseExpr (Suc j) p = Some x" if "parseExpr j p = Some x" for j
    using parse_fuel_Suc [of j] that by blast
  have "parseExpr (n + k) p = Some x" for k
  proof (induction k)
    case 0
    show ?case using assms(1) by simp
  next
    case (Suc k)
    from step [OF Suc] show ?case by (simp only: add_Suc_right)
  qed
  then show ?thesis using assms(2) by (metis le_add_diff_inverse)
qed

lemma IsSpace_ascii:
  "IsSpace c \<Longrightarrow> (of_char c :: nat) < 128 \<Longrightarrow> (of_char c :: nat) \<in> {9, 10, 11, 12, 13, 32}"
  by (auto simp: IsSpace_def)

lemma TrimSpace_empty_Cons_cases:
  assumes "TrimSpace_empty (c # cs)"
  shows "((of_char c :: nat) \<in> {9, 10, 11, 12, 13, 32} \<and> TrimSpace_empty cs)
       \<or> (128 \<le> (of_char c :: nat)
            \<and> (\<exists>d ds. cs = d # ds \<and> 128 \<le> (of_char d :: nat) \<and> TrimSpace_empty ds))
       \<or> (128 \<le> (of_char c :: nat)
            \<and> (\<exists>d e es. cs = d # e # es \<and> 128 \<le> (of_char d :: nat)
                  \<and> 128 \<le> (of_char e :: nat) \<and> TrimSpace_empty es))"
proof -
  define b where "b = (of_char c :: nat)"
  consider "b \<in> {9, 10, 11, 12, 13, 32}" | "b = 0xC2" | "b = 0xE1" | "b = 0xE2" | "b = 0xE3"
    | "b \<notin> {9, 10, 11, 12, 13, 32, 0xC2, 0xE1, 0xE2, 0xE3}"
    by blast
  then show ?thesis
  proof cases
    case 1
    then have "TrimSpace_empty cs"
      using assms unfolding TrimSpace_empty.simps Let_def b_def [symmetric] by simp
    with 1 show ?thesis unfolding b_def by blast
  next
    case 2
    then have "case cs of d # ds \<Rightarrow> (of_char d :: nat) \<in> {0x85, 0xA0} \<and> TrimSpace_empty ds
            | _ \<Rightarrow> False"
      using assms unfolding TrimSpace_empty.simps Let_def b_def [symmetric] by simp
    then obtain d ds where "cs = d # ds" "(of_char d :: nat) \<in> {0x85, 0xA0}" "TrimSpace_empty ds"
      by (cases cs) simp_all
    moreover from this have "128 \<le> (of_char d :: nat)" by auto
    ultimately show ?thesis using 2 unfolding b_def by simp
  next
    case 3
    then have "case cs of d # e # es \<Rightarrow>
        (of_char d :: nat) = 0x9A \<and> (of_char e :: nat) = 0x80 \<and> TrimSpace_empty es
      | _ \<Rightarrow> False"
      using assms unfolding TrimSpace_empty.simps Let_def b_def [symmetric] by simp
    then obtain d e es where "cs = d # e # es" "(of_char d :: nat) = 0x9A"
      "(of_char e :: nat) = 0x80" "TrimSpace_empty es"
      by (cases cs; cases "tl cs") simp_all
    then show ?thesis using 3 unfolding b_def by simp
  next
    case 4
    then have "case cs of d # e # es \<Rightarrow>
                (((of_char d :: nat) = 0x80
                    \<and> ((0x80 \<le> (of_char e :: nat) \<and> (of_char e :: nat) \<le> 0x8A)
                        \<or> (of_char e :: nat) \<in> {0xA8, 0xA9, 0xAF}))
                 \<or> ((of_char d :: nat) = 0x81 \<and> (of_char e :: nat) = 0x9F))
                \<and> TrimSpace_empty es
      | _ \<Rightarrow> False"
      using assms unfolding TrimSpace_empty.simps Let_def b_def [symmetric] by simp
    then obtain d e es where cs: "cs = d # e # es" and
      de: "((of_char d :: nat) = 0x80
                    \<and> ((0x80 \<le> (of_char e :: nat) \<and> (of_char e :: nat) \<le> 0x8A)
                        \<or> (of_char e :: nat) \<in> {0xA8, 0xA9, 0xAF}))
                 \<or> ((of_char d :: nat) = 0x81 \<and> (of_char e :: nat) = 0x9F)"
      and es: "TrimSpace_empty es"
      by (cases cs; cases "tl cs") simp_all
    from de have "128 \<le> (of_char d :: nat)" "128 \<le> (of_char e :: nat)" by auto
    with cs es 4 show ?thesis unfolding b_def by simp
  next
    case 5
    then have "case cs of d # e # es \<Rightarrow>
        (of_char d :: nat) = 0x80 \<and> (of_char e :: nat) = 0x80 \<and> TrimSpace_empty es
      | _ \<Rightarrow> False"
      using assms unfolding TrimSpace_empty.simps Let_def b_def [symmetric] by simp
    then obtain d e es where "cs = d # e # es" "(of_char d :: nat) = 0x80"
      "(of_char e :: nat) = 0x80" "TrimSpace_empty es"
      by (cases cs; cases "tl cs") simp_all
    then show ?thesis using 5 unfolding b_def by simp
  next
    case 6
    then have False
      using assms unfolding TrimSpace_empty.simps Let_def b_def [symmetric] by simp
    then show ?thesis ..
  qed
qed

lemma TrimSpace_empty_ascii_aux:
  "length s \<le> n \<Longrightarrow> TrimSpace_empty s \<Longrightarrow> c \<in> set s \<Longrightarrow> (of_char c :: nat) < 128
   \<Longrightarrow> (of_char c :: nat) \<in> {9, 10, 11, 12, 13, 32}"
proof (induction n arbitrary: s)
  case 0
  then show ?case by simp
next
  case (Suc n)
  show ?case
  proof (cases s)
    case Nil
    with Suc.prems show ?thesis by simp
  next
    case (Cons a cs)
    from Suc.prems(2) Cons have "TrimSpace_empty (a # cs)" by simp
    from TrimSpace_empty_Cons_cases [OF this]
    consider (one) "(of_char a :: nat) \<in> {9, 10, 11, 12, 13, 32}" "TrimSpace_empty cs"
      | (two) d ds where "128 \<le> (of_char a :: nat)" "cs = d # ds" "128 \<le> (of_char d :: nat)"
          "TrimSpace_empty ds"
      | (three) d e es where "128 \<le> (of_char a :: nat)" "cs = d # e # es"
          "128 \<le> (of_char d :: nat)" "128 \<le> (of_char e :: nat)" "TrimSpace_empty es"
      by blast
    then show ?thesis
    proof cases
      case one
      show ?thesis
      proof (cases "c = a")
        case True
        with one(1) show ?thesis by simp
      next
        case False
        with Suc.prems(3) Cons have "c \<in> set cs" by simp
        moreover from Suc.prems(1) Cons have "length cs \<le> n" by simp
        ultimately show ?thesis using Suc.IH one(2) Suc.prems(4) by blast
      qed
    next
      case two
      from Suc.prems(3) Cons two(2) have "c = a \<or> c = d \<or> c \<in> set ds" by simp
      moreover from Suc.prems(4) two(1) have "c \<noteq> a" by auto
      moreover from Suc.prems(4) two(3) have "c \<noteq> d" by auto
      ultimately have "c \<in> set ds" by blast
      moreover from Suc.prems(1) Cons two(2) have "length ds \<le> n" by simp
      ultimately show ?thesis using Suc.IH two(4) Suc.prems(4) by blast
    next
      case three
      from Suc.prems(3) Cons three(2) have "c = a \<or> c = d \<or> c = e \<or> c \<in> set es" by simp
      moreover from Suc.prems(4) three(1) have "c \<noteq> a" by auto
      moreover from Suc.prems(4) three(3) have "c \<noteq> d" by auto
      moreover from Suc.prems(4) three(4) have "c \<noteq> e" by auto
      ultimately have "c \<in> set es" by blast
      moreover from Suc.prems(1) Cons three(2) have "length es \<le> n" by simp
      ultimately show ?thesis using Suc.IH three(5) Suc.prems(4) by blast
    qed
  qed
qed

lemma TrimSpace_empty_ascii:
  "TrimSpace_empty s \<Longrightarrow> c \<in> set s \<Longrightarrow> (of_char c :: nat) < 128
   \<Longrightarrow> (of_char c :: nat) \<in> {9, 10, 11, 12, 13, 32}"
  using TrimSpace_empty_ascii_aux [of s "length s" c] by simp

section \<open>The parser returns\<close>

lemma returns_within_mono: "returns_within m r \<Longrightarrow> m \<le> m' \<Longrightarrow> returns_within m' r"
  by (auto simp: returns_within_def)

lemma returns_within_Some:
  "parser_wf q \<Longrightarrow> tokens_left q \<le> m \<Longrightarrow> returns_within m (Some (res, q))"
  by (simp add: returns_within_def)

lemma returns_within_bind:
  assumes "returns_within m r"
    and "\<And>left q. parser_wf q \<Longrightarrow> tokens_left q \<le> m \<Longrightarrow> returns_within m (k left q)"
  shows "returns_within m (case r of None \<Rightarrow> None
            | Some (Inl err, p1) \<Rightarrow> Some (Inl err, p1)
            | Some (Inr left, p1) \<Rightarrow> k left p1)"
proof -
  from assms(1) obtain res q where r: "r = Some (res, q)" and q: "parser_wf q" "tokens_left q \<le> m"
    by (auto simp: returns_within_def)
  show ?thesis
  proof (cases res)
    case (Inl err)
    with r q show ?thesis by (simp add: returns_within_def)
  next
    case (Inr left)
    with r assms(2) [OF q] show ?thesis by simp
  qed
qed

lemma parseTag_returns:
  assumes wf: "parser_wf p"
  shows "returns_within (tokens_left p) (Some (parseTag p))"
proof (cases "tok_typ (cur p) = tokenIdent")
  case False
  then have "parseTag p = (Inl (ExpectedTagKey (tok_val (cur p))), p)" by (simp add: parseTag_def)
  then show ?thesis using wf by (simp add: returns_within_def)
next
  case id1: True
  let ?p1 = "advance p"
  from id1 have "tok_typ (cur p) \<noteq> tokenEOF" by simp
  then have p1: "parser_wf ?p1" "tokens_left ?p1 < tokens_left p" using advance_wf [OF wf] by blast+
  show ?thesis
  proof (cases "tok_typ (cur ?p1) = tokenColon")
    case False
    with id1 have "parseTag p = (Inl (ExpectedColon (tok_val (cur ?p1))), ?p1)"
      by (simp add: parseTag_def Let_def)
    then show ?thesis using p1 by (simp add: returns_within_def)
  next
    case col: True
    let ?p2 = "advance ?p1"
    from col have "tok_typ (cur ?p1) \<noteq> tokenEOF" by simp
    then have p2: "parser_wf ?p2" "tokens_left ?p2 < tokens_left ?p1"
      using advance_wf [OF p1(1)] by blast+
    show ?thesis
    proof (cases "tok_typ (cur ?p2) = tokenIdent")
      case False
      with id1 col have "parseTag p = (Inl (ExpectedTagValue (tok_val (cur ?p2))), ?p2)"
        by (simp add: parseTag_def Let_def)
      then show ?thesis using p1 p2 by (simp add: returns_within_def)
    next
      case id2: True
      let ?p3 = "advance ?p2"
      from id2 have "tok_typ (cur ?p2) \<noteq> tokenEOF" by simp
      then have p3: "parser_wf ?p3" "tokens_left ?p3 < tokens_left ?p2"
        using advance_wf [OF p2(1)] by blast+
      from id1 col id2
      have "parseTag p = (Inr (TagFilter (tok_val (cur p)) (tok_val (cur ?p2))), ?p3)"
        by (simp add: parseTag_def Let_def)
      then show ?thesis using p1 p2 p3 by (simp add: returns_within_def)
    qed
  qed
qed

lemma parse_total:
  "(\<forall>p. parser_wf p \<and> 3 * tokens_left p + 3 \<le> n
        \<longrightarrow> returns_within (tokens_left p) (parseExpr n p))
   \<and> (\<forall>p left. parser_wf p \<and> 3 * tokens_left p + 2 \<le> n
        \<longrightarrow> returns_within (tokens_left p) (parseExprLoop n left p))
   \<and> (\<forall>p. parser_wf p \<and> 3 * tokens_left p + 2 \<le> n
        \<longrightarrow> returns_within (tokens_left p) (parseTerm n p))
   \<and> (\<forall>p left. parser_wf p \<and> 3 * tokens_left p + 1 \<le> n
        \<longrightarrow> returns_within (tokens_left p) (parseTermLoop n left p))
   \<and> (\<forall>p. parser_wf p \<and> 3 * tokens_left p + 1 \<le> n
        \<longrightarrow> returns_within (tokens_left p) (parseFactor n p))"
proof (induction n)
  case 0
  show ?case by simp
next
  case (Suc n)
  then have IH:
    "\<And>p. parser_wf p \<Longrightarrow> 3 * tokens_left p + 3 \<le> n
        \<Longrightarrow> returns_within (tokens_left p) (parseExpr n p)"
    "\<And>p left. parser_wf p \<Longrightarrow> 3 * tokens_left p + 2 \<le> n
        \<Longrightarrow> returns_within (tokens_left p) (parseExprLoop n left p)"
    "\<And>p. parser_wf p \<Longrightarrow> 3 * tokens_left p + 2 \<le> n
        \<Longrightarrow> returns_within (tokens_left p) (parseTerm n p)"
    "\<And>p left. parser_wf p \<Longrightarrow> 3 * tokens_left p + 1 \<le> n
        \<Longrightarrow> returns_within (tokens_left p) (parseTermLoop n left p)"
    "\<And>p. parser_wf p \<Longrightarrow> 3 * tokens_left p + 1 \<le> n
        \<Longrightarrow> returns_within (tokens_left p) (parseFactor n p)"
    by blast+
  have e: "returns_within (tokens_left p) (parseExpr (Suc n) p)"
    if wf: "parser_wf p" and fuel: "3 * tokens_left p + 3 \<le> Suc n" for p
  proof -
    have "returns_within (tokens_left p) (parseTerm n p)"
      using IH(3) [OF wf] fuel by simp
    then have "returns_within (tokens_left p) (case parseTerm n p of None \<Rightarrow> None
            | Some (Inl err, p1) \<Rightarrow> Some (Inl err, p1)
            | Some (Inr left, p1) \<Rightarrow> parseExprLoop n left p1)"
    proof (rule returns_within_bind)
      fix left q assume q: "parser_wf q" "tokens_left q \<le> tokens_left p"
      then have "3 * tokens_left q + 2 \<le> n" using fuel by simp
      from IH(2) [OF q(1) this] q(2)
      show "returns_within (tokens_left p) (parseExprLoop n left q)"
        by (rule returns_within_mono)
    qed
    then show ?thesis by simp
  qed
  have el: "returns_within (tokens_left p) (parseExprLoop (Suc n) left p)"
    if wf: "parser_wf p" and fuel: "3 * tokens_left p + 2 \<le> Suc n" for p left
  proof (cases "tok_typ (cur p) = tokenOr")
    case True
    let ?a = "advance p"
    from True have "tok_typ (cur p) \<noteq> tokenEOF" by simp
    then have a: "parser_wf ?a" "tokens_left ?a < tokens_left p" using advance_wf [OF wf] by blast+
    then have "3 * tokens_left ?a + 2 \<le> n" using fuel by simp
    from IH(3) [OF a(1) this] have "returns_within (tokens_left ?a) (parseTerm n ?a)" .
    then have "returns_within (tokens_left ?a) (case parseTerm n ?a of None \<Rightarrow> None
            | Some (Inl err, p1) \<Rightarrow> Some (Inl err, p1)
            | Some (Inr right, p1) \<Rightarrow> parseExprLoop n (OrFilter left right) p1)"
    proof (rule returns_within_bind)
      fix right q assume q: "parser_wf q" "tokens_left q \<le> tokens_left ?a"
      then have "3 * tokens_left q + 2 \<le> n" using fuel a(2) by simp
      from IH(2) [OF q(1) this] q(2)
      show "returns_within (tokens_left ?a) (parseExprLoop n (OrFilter left right) q)"
        by (rule returns_within_mono)
    qed
    then have "returns_within (tokens_left p) (case parseTerm n ?a of None \<Rightarrow> None
            | Some (Inl err, p1) \<Rightarrow> Some (Inl err, p1)
            | Some (Inr right, p1) \<Rightarrow> parseExprLoop n (OrFilter left right) p1)"
      using a(2) by (simp add: returns_within_mono)
    with True show ?thesis by simp
  next
    case False
    then show ?thesis using wf by (simp add: returns_within_def)
  qed
  have t: "returns_within (tokens_left p) (parseTerm (Suc n) p)"
    if wf: "parser_wf p" and fuel: "3 * tokens_left p + 2 \<le> Suc n" for p
  proof -
    have "returns_within (tokens_left p) (parseFactor n p)"
      using IH(5) [OF wf] fuel by simp
    then have "returns_within (tokens_left p) (case parseFactor n p of None \<Rightarrow> None
            | Some (Inl err, p1) \<Rightarrow> Some (Inl err, p1)
            | Some (Inr left, p1) \<Rightarrow> parseTermLoop n left p1)"
    proof (rule returns_within_bind)
      fix left q assume q: "parser_wf q" "tokens_left q \<le> tokens_left p"
      then have "3 * tokens_left q + 1 \<le> n" using fuel by simp
      from IH(4) [OF q(1) this] q(2)
      show "returns_within (tokens_left p) (parseTermLoop n left q)"
        by (rule returns_within_mono)
    qed
    then show ?thesis by simp
  qed
  have tl: "returns_within (tokens_left p) (parseTermLoop (Suc n) left p)"
    if wf: "parser_wf p" and fuel: "3 * tokens_left p + 1 \<le> Suc n" for p left
  proof (cases "tok_typ (cur p) = tokenAnd")
    case True
    let ?a = "advance p"
    from True have "tok_typ (cur p) \<noteq> tokenEOF" by simp
    then have a: "parser_wf ?a" "tokens_left ?a < tokens_left p" using advance_wf [OF wf] by blast+
    then have "3 * tokens_left ?a + 1 \<le> n" using fuel by simp
    from IH(5) [OF a(1) this] have "returns_within (tokens_left ?a) (parseFactor n ?a)" .
    then have "returns_within (tokens_left ?a) (case parseFactor n ?a of None \<Rightarrow> None
            | Some (Inl err, p1) \<Rightarrow> Some (Inl err, p1)
            | Some (Inr right, p1) \<Rightarrow> parseTermLoop n (AndFilter left right) p1)"
    proof (rule returns_within_bind)
      fix right q assume q: "parser_wf q" "tokens_left q \<le> tokens_left ?a"
      then have "3 * tokens_left q + 1 \<le> n" using fuel a(2) by simp
      from IH(4) [OF q(1) this] q(2)
      show "returns_within (tokens_left ?a) (parseTermLoop n (AndFilter left right) q)"
        by (rule returns_within_mono)
    qed
    then have "returns_within (tokens_left p) (case parseFactor n ?a of None \<Rightarrow> None
            | Some (Inl err, p1) \<Rightarrow> Some (Inl err, p1)
            | Some (Inr right, p1) \<Rightarrow> parseTermLoop n (AndFilter left right) p1)"
      using a(2) by (simp add: returns_within_mono)
    with True show ?thesis by simp
  next
    case False
    then show ?thesis using wf by (simp add: returns_within_def)
  qed
  have f: "returns_within (tokens_left p) (parseFactor (Suc n) p)"
    if wf: "parser_wf p" and fuel: "3 * tokens_left p + 1 \<le> Suc n" for p
  proof (cases "tok_typ (cur p) = tokenLParen")
    case True
    let ?a = "advance p"
    let ?k = "\<lambda>expr p1. if tok_typ (cur p1) \<noteq> tokenRParen
                then Some (Inl (ExpectedRParen (tok_val (cur p1))), p1)
                else Some (Inr expr, advance p1)"
    from True have "tok_typ (cur p) \<noteq> tokenEOF" by simp
    then have a: "parser_wf ?a" "tokens_left ?a < tokens_left p" using advance_wf [OF wf] by blast+
    then have "3 * tokens_left ?a + 3 \<le> n" using fuel by simp
    from IH(1) [OF a(1) this] have "returns_within (tokens_left ?a) (parseExpr n ?a)" .
    then have "returns_within (tokens_left ?a) (case parseExpr n ?a of None \<Rightarrow> None
            | Some (Inl err, p1) \<Rightarrow> Some (Inl err, p1)
            | Some (Inr expr, p1) \<Rightarrow> ?k expr p1)"
    proof (rule returns_within_bind)
      fix expr q assume q: "parser_wf q" "tokens_left q \<le> tokens_left ?a"
      show "returns_within (tokens_left ?a) (?k expr q)"
      proof (cases "tok_typ (cur q) = tokenRParen")
        case True
        then have "tok_typ (cur q) \<noteq> tokenEOF" by simp
        then have "parser_wf (advance q)" "tokens_left (advance q) < tokens_left q"
          using advance_wf [OF q(1)] by blast+
        with True q(2) show ?thesis by (simp add: returns_within_def)
      next
        case False
        with q show ?thesis by (simp add: returns_within_def)
      qed
    qed
    then have "returns_within (tokens_left p) (case parseExpr n ?a of None \<Rightarrow> None
            | Some (Inl err, p1) \<Rightarrow> Some (Inl err, p1)
            | Some (Inr expr, p1) \<Rightarrow> ?k expr p1)"
      using a(2) by (simp add: returns_within_mono)
    with True show ?thesis by simp
  next
    case False
    then show ?thesis using parseTag_returns [OF wf] by simp
  qed
  show ?case using e el t tl f by blast
qed

lemma parseExpr_newParser_returns:
  "\<exists>res q. parseExpr (3 * length s + 6) (newParser s) = Some (res, q)"
proof -
  have "3 * tokens_left (newParser s) + 3 \<le> 3 * length s + 6"
    using tokens_left_newParser [of s] by simp
  with parse_total [of "3 * length s + 6"] newParser_wf [of s]
  have "returns_within (tokens_left (newParser s)) (parseExpr (3 * length s + 6) (newParser s))"
    by blast
  then show ?thesis by (auto simp: returns_within_def)
qed

lemma ParseFilter_returns: "\<exists>r. ParseFilter s = Some r"
proof (cases "TrimSpace_empty s")
  case True
  then show ?thesis by (simp add: ParseFilter_def)
next
  case False
  from parseExpr_newParser_returns [of s] obtain res q
    where "parseExpr (3 * length s + 6) (newParser s) = Some (res, q)" by blast
  with False show ?thesis by (cases res) (simp_all add: ParseFilter_def)
qed

section \<open>ParseFilter: trailing text and precedence\<close>

lemma parseTag_first:
  "parseTag p = (Inr F, q) \<Longrightarrow> tok_typ (cur p) = tokenIdent"
  by (cases "tok_typ (cur p) = tokenIdent") (simp_all add: parseTag_def)

lemma parseFactor_first:
  assumes "parseFactor n p = Some (Inr F, q)"
  shows "tok_typ (cur p) = tokenIdent \<or> tok_typ (cur p) = tokenLParen"
proof (cases n)
  case 0
  with assms show ?thesis by simp
next
  case (Suc m)
  show ?thesis
  proof (cases "tok_typ (cur p) = tokenLParen")
    case True
    then show ?thesis by simp
  next
    case False
    with assms Suc have "parseTag p = (Inr F, q)" by simp
    then show ?thesis by (simp add: parseTag_first)
  qed
qed

lemma bind_Inr:
  assumes "(case r of None \<Rightarrow> None
            | Some (Inl err, p1) \<Rightarrow> Some (Inl err, p1)
            | Some (Inr left, p1) \<Rightarrow> k left p1) = Some (Inr F, q)"
  shows "\<exists>left p1. r = Some (Inr left, p1)"
proof (cases r)
  case None
  with assms show ?thesis by simp
next
  case (Some y)
  obtain res p1 where y: "y = (res, p1)" by (cases y)
  show ?thesis
  proof (cases res)
    case (Inl err)
    with assms Some y show ?thesis by simp
  next
    case (Inr left)
    with Some y show ?thesis by simp
  qed
qed

lemma parseTerm_first:
  assumes "parseTerm n p = Some (Inr F, q)"
  shows "tok_typ (cur p) = tokenIdent \<or> tok_typ (cur p) = tokenLParen"
proof (cases n)
  case 0
  with assms show ?thesis by simp
next
  case (Suc m)
  with assms have "(case parseFactor m p of None \<Rightarrow> None
            | Some (Inl err, p1) \<Rightarrow> Some (Inl err, p1)
            | Some (Inr left, p1) \<Rightarrow> parseTermLoop m left p1) = Some (Inr F, q)" by simp
  from bind_Inr [OF this] obtain left p1 where "parseFactor m p = Some (Inr left, p1)" by blast
  then show ?thesis by (rule parseFactor_first)
qed

lemma parseExpr_first:
  assumes "parseExpr n p = Some (Inr F, q)"
  shows "tok_typ (cur p) = tokenIdent \<or> tok_typ (cur p) = tokenLParen"
proof (cases n)
  case 0
  with assms show ?thesis by simp
next
  case (Suc m)
  with assms have "(case parseTerm m p of None \<Rightarrow> None
            | Some (Inl err, p1) \<Rightarrow> Some (Inl err, p1)
            | Some (Inr left, p1) \<Rightarrow> parseExprLoop m left p1) = Some (Inr F, q)" by simp
  from bind_Inr [OF this] obtain left p1 where "parseTerm m p = Some (Inr left, p1)" by blast
  then show ?thesis by (rule parseTerm_first)
qed

lemma lex_suffix_first_char:
  assumes "tok_typ (fst (lex_suffix s)) = tokenIdent \<or> tok_typ (fst (lex_suffix s)) = tokenLParen"
  shows "\<exists>x \<in> set s. x = CHR ''('' \<or> isIdentStart x"
proof (cases "dropWhile IsSpace s")
  case Nil
  from assms show ?thesis unfolding lex_suffix_Nil [OF Nil] by simp
next
  case (Cons ch r)
  then have "ch \<in> set (dropWhile IsSpace s)" by simp
  then have ch: "ch \<in> set s" by (rule set_dropWhileD)
  from assms have "ch = CHR ''('' \<or> isIdentStart ch"
    unfolding lex_suffix_Cons [OF Cons] by (auto split: if_splits)
  with ch show ?thesis by blast
qed

lemma first_char_visible:
  assumes "x = CHR ''('' \<or> isIdentStart x"
  shows "(of_char x :: nat) < 128 \<and> (of_char x :: nat) \<notin> {9, 10, 11, 12, 13, 32}"
  using assms by (auto simp: isIdentStart_def less_eq_char_def)

lemma ParseFilter_SomeD:
  assumes "ParseFilter s = Some (Inr (Some F))"
  shows "\<not> TrimSpace_empty s"
    and "\<exists>q. parseExpr (3 * length s + 6) (newParser s) = Some (Inr F, q)"
proof -
  show ne: "\<not> TrimSpace_empty s" using assms by (auto simp: ParseFilter_def)
  from parseExpr_newParser_returns [of s] obtain res q
    where r: "parseExpr (3 * length s + 6) (newParser s) = Some (res, q)" by blast
  with assms ne have "res = Inr F" by (cases res) (simp_all add: ParseFilter_def)
  with r show "\<exists>q. parseExpr (3 * length s + 6) (newParser s) = Some (Inr F, q)" by blast
qed

text \<open>
  C10. Let \<open>E\<close> be an input that \<open>ParseFilter\<close> parses to the expression \<open>F\<close> with no
  error. Then \<open>E\<close> followed by white space \<open>ws\<close> (possibly none), by a byte \<open>c\<close> that is
  neither white space nor an identifier character nor one of \<open>:\<close>, \<open>(\<close>, \<open>)\<close>, and by any
  text \<open>rest\<close> is parsed to the same \<open>F\<close>, again with no error: the lexer reports \<open>c\<close> as
  the end of the input, and nothing after it is read.
\<close>

theorem ParseFilter_ignores_after_unrecognized:
  assumes E: "ParseFilter E = Some (Inr (Some F))"
    and ws: "\<forall>w \<in> set ws. IsSpace w"
    and c: "\<not> IsSpace c" "\<not> isIdentChar c" "c \<noteq> CHR '':''" "c \<noteq> CHR ''(''" "c \<noteq> CHR '')''"
  shows "ParseFilter (E @ ws @ c # rest) = Some (Inr (Some F))"
proof -
  let ?tail = "ws @ c # rest"
  let ?n = "3 * length E + 6"
  let ?m = "3 * length (E @ ?tail) + 6"
  have tail: "ignored_tail ?tail" using ws c unfolding ignored_tail_def by blast
  from ParseFilter_SomeD(2) [OF E] obtain q
    where q: "parseExpr ?n (newParser E) = Some (Inr F, q)" by blast
  then have qm: "parseExpr ?m (newParser E) = Some (Inr F, q)"
    by (rule parseExpr_fuel_mono) simp
  have "sim E ?tail (newParser E) (newParser (E @ ?tail))"
    using tail by (rule sim_newParser)
  with sim_parse [OF tail, of E ?m]
  have "sim_result E ?tail (parseExpr ?m (newParser E)) (parseExpr ?m (newParser (E @ ?tail)))"
    by blast
  with qm obtain q' where q': "parseExpr ?m (newParser (E @ ?tail)) = Some (Inr F, q')"
    by (auto simp: sim_result_def)
  from parseExpr_first [OF q]
  have "tok_typ (fst (lex_suffix E)) = tokenIdent \<or> tok_typ (fst (lex_suffix E)) = tokenLParen"
    by (simp add: newParser_eq)
  from lex_suffix_first_char [OF this] obtain x
    where x: "x \<in> set E" "x = CHR ''('' \<or> isIdentStart x" by blast
  from first_char_visible [OF x(2)]
  have vis: "(of_char x :: nat) < 128" "(of_char x :: nat) \<notin> {9, 10, 11, 12, 13, 32}" by blast+
  have ne: "\<not> TrimSpace_empty (E @ ?tail)"
  proof
    assume "TrimSpace_empty (E @ ?tail)"
    moreover from x(1) have "x \<in> set (E @ ?tail)" by simp
    ultimately have "(of_char x :: nat) \<in> {9, 10, 11, 12, 13, 32}"
      using vis(1) by (rule TrimSpace_empty_ascii)
    with vis(2) show False by contradiction
  qed
  show ?thesis unfolding ParseFilter_def using ne q' by simp
qed

theorem ParseFilter_ignores_after_unrecognized_witness:
  "ParseFilter ''a:1 AND b:2'' = Some (Inr (Some (AndFilter (TagFilter ''a'' ''1'') (TagFilter ''b'' ''2''))))
   \<and> ParseFilter (''a:1 AND b:2'' @ '' '' @ CHR ''&'' # ''& c:3'')
       = Some (Inr (Some (AndFilter (TagFilter ''a'' ''1'') (TagFilter ''b'' ''2''))))"
proof -
  have E: "ParseFilter ''a:1 AND b:2''
      = Some (Inr (Some (AndFilter (TagFilter ''a'' ''1'') (TagFilter ''b'' ''2''))))"
    by code_simp
  have ws: "\<forall>w \<in> set '' ''. IsSpace w" by (simp add: IsSpace_def)
  have c: "\<not> IsSpace CHR ''&''" "\<not> isIdentChar CHR ''&''"
    by (simp_all add: IsSpace_def isIdentChar_def isIdentStart_def less_eq_char_def)
  from ParseFilter_ignores_after_unrecognized [OF E ws c, of "''& c:3''"] E
  show ?thesis by simp
qed

text \<open>
  C5. \<open>AND\<close> binds tighter than \<open>OR\<close>, and both associate to the left:
  \<open>env:prod OR env:dev AND host:h1\<close> is the \<open>OR\<close> of \<open>env:prod\<close> with the \<open>AND\<close> of
  \<open>env:dev\<close> and \<open>host:h1\<close>; in \<open>a:1 AND b:2 AND c:3\<close> the left child of the outer \<open>AND\<close>
  is the \<open>AND\<close> of \<open>a:1\<close> and \<open>b:2\<close>, and likewise for \<open>a:1 OR b:2 OR c:3\<close>.
\<close>

theorem ParseFilter_precedence:
  "ParseFilter ''env:prod OR env:dev AND host:h1''
     = Some (Inr (Some (OrFilter (TagFilter ''env'' ''prod'')
                         (AndFilter (TagFilter ''env'' ''dev'') (TagFilter ''host'' ''h1'')))))
   \<and> ParseFilter ''a:1 AND b:2 AND c:3''
     = Some (Inr (Some (AndFilter (AndFilter (TagFilter ''a'' ''1'') (TagFilter ''b'' ''2''))
                         (TagFilter ''c'' ''3''))))
   \<and> ParseFilter ''a:1 OR b:2 OR c:3''
     = Some (Inr (Some (OrFilter (OrFilter (TagFilter ''a'' ''1'') (TagFilter ''b'' ''2''))
                         (TagFilter ''c'' ''3''))))"
  by code_simp


end
